theory Spec2Isabelle
  imports Main "HOL-Library.Word" "HOL-Library.List_Lexorder" "HOL-Library.Product_Lexorder"
    "HOL-Library.Multiset"
begin

unbundle bit_operations_syntax

section \<open>Bytes and big-endian integers\<close>

type_synonym byte = "8 word"
type_synonym bytes = "byte list"

text \<open>
  \<open>binary.BigEndian\<close> of the Go standard library: the most significant byte comes first.
  \<open>PutUint16(b, v)\<close> stores \<open>byte(v >> 8), byte(v)\<close>; \<open>Uint16(b)\<close> reads them back.
\<close>

definition PutUint16 :: "16 word \<Rightarrow> bytes" where
  "PutUint16 v = [ucast (drop_bit 8 v), ucast v]"

definition Uint16 :: "bytes \<Rightarrow> 16 word" where
  "Uint16 b = ucast (b ! 1) OR push_bit 8 (ucast (b ! 0))"

definition PutUint32 :: "32 word \<Rightarrow> bytes" where
  "PutUint32 v = [ucast (drop_bit 24 v), ucast (drop_bit 16 v), ucast (drop_bit 8 v), ucast v]"

definition Uint32 :: "bytes \<Rightarrow> 32 word" where
  "Uint32 b = ucast (b ! 3) OR push_bit 8 (ucast (b ! 2)) OR push_bit 16 (ucast (b ! 1))
     OR push_bit 24 (ucast (b ! 0))"

definition PutUint64 :: "64 word \<Rightarrow> bytes" where
  "PutUint64 v = [ucast (drop_bit 56 v), ucast (drop_bit 48 v), ucast (drop_bit 40 v),
     ucast (drop_bit 32 v), ucast (drop_bit 24 v), ucast (drop_bit 16 v),
     ucast (drop_bit 8 v), ucast v]"

definition Uint64 :: "bytes \<Rightarrow> 64 word" where
  "Uint64 b = ucast (b ! 7) OR push_bit 8 (ucast (b ! 6)) OR push_bit 16 (ucast (b ! 5))
     OR push_bit 24 (ucast (b ! 4)) OR push_bit 32 (ucast (b ! 3)) OR push_bit 40 (ucast (b ! 2))
     OR push_bit 48 (ucast (b ! 1)) OR push_bit 56 (ucast (b ! 0))"

section \<open>SSTable builder (badger/table/builder.go)\<close>

text \<open>
  Go's \<open>int\<close> fields of the builder hold lengths, counts and offsets into the buffer; they are
  never negative and are bounded by the size of the buffer, so they are natural numbers here.
  The one subtraction that can go below zero (\<open>newpos\<close> in \<open>Finish\<close>) is done on \<open>int\<close>.
  A slice is a list; its capacity is its length (the builder only makes its buffer with
  \<open>make([]byte, tableSize)\<close>).
\<close>

definition tableSize :: nat where
  "tableSize = 50 * 2 ^ 20"

definition restartInterval :: nat where
  "restartInterval = 100"

record header =
  plen :: nat
  klen :: nat
  vlen :: nat
  prev :: nat

definition header_Size :: nat where
  "header_Size = 8"

text \<open>\<open>uint16(h.plen)\<close> keeps the low 16 bits of the Go \<open>int\<close>.\<close>

definition Encode :: "header \<Rightarrow> bytes" where
  "Encode h = PutUint16 (of_nat (plen h)) @ PutUint16 (of_nat (klen h))
     @ PutUint16 (of_nat (vlen h)) @ PutUint16 (of_nat (prev h))"

text \<open>\<open>Decode\<close> panics (\<open>None\<close>) on a buffer shorter than the header.\<close>

definition Decode :: "bytes \<Rightarrow> header option" where
  "Decode b = (if length b < 8 then None
     else Some \<lparr> plen = unat (Uint16 (take 2 b)),
                 klen = unat (Uint16 (take 2 (drop 2 b))),
                 vlen = unat (Uint16 (take 2 (drop 4 b))),
                 prev = unat (Uint16 (take 2 (drop 6 b))) \<rparr>)"

record TableBuilder =
  counter :: nat
  buf :: bytes
  pos :: nat
  baseKey :: bytes
  restarts :: "32 word list"
  prevOffset :: nat

text \<open>The zero value \<open>TableBuilder{}\<close>.\<close>

definition zeroBuilder :: TableBuilder where
  "zeroBuilder = \<lparr> counter = 0, buf = [], pos = 0, baseKey = [], restarts = [], prevOffset = 0 \<rparr>"

text \<open>\<open>Reset\<close> leaves \<open>prevOffset\<close> as it is.\<close>

definition Reset :: "TableBuilder \<Rightarrow> TableBuilder" where
  "Reset b = b \<lparr> counter := 0,
                 buf := (if length (buf b) < tableSize then replicate tableSize 0 else buf b),
                 pos := 0, baseKey := [], restarts := [] \<rparr>"

text \<open>
  \<open>write\<close>: \<open>y.AssertTrue(len(d) == copy(b.buf[b.pos:], d))\<close>. \<open>None\<close> is the end of the
  process: the slice expression panics when \<open>pos\<close> is beyond the buffer, and the assertion
  fails when the rest of the buffer is shorter than \<open>d\<close>.
\<close>

definition write_tb :: "TableBuilder \<Rightarrow> bytes \<Rightarrow> TableBuilder option" where
  "write_tb b d =
     (if length (buf b) < pos b then None
      else if length (buf b) - pos b < length d then None
      else Some (b \<lparr> buf := take (pos b) (buf b) @ d @ drop (pos b + length d) (buf b),
                      pos := pos b + length d \<rparr>))"

text \<open>The loop of \<open>keyDiff\<close>: the index of the first byte where the new key leaves the base key.\<close>

function keyDiff_loop :: "bytes \<Rightarrow> bytes \<Rightarrow> nat \<Rightarrow> nat" where
  "keyDiff_loop base newKey i =
     (if i < length newKey \<and> i < length base
      then (if newKey ! i \<noteq> base ! i then i else keyDiff_loop base newKey (i + 1))
      else i)"
  by pat_completeness auto
termination
  by (relation "measure (\<lambda>(base, newKey, i). length newKey - i)") auto

declare keyDiff_loop.simps [simp del]

definition keyDiff :: "TableBuilder \<Rightarrow> bytes \<Rightarrow> bytes" where
  "keyDiff b newKey = drop (keyDiff_loop (baseKey b) newKey 0) newKey"

definition length_used :: "TableBuilder \<Rightarrow> nat" where
  "length_used b = pos b + 6 + 4 * length (restarts b) + 8"

datatype error = ExceedsTableSize

text \<open>
  \<open>Add\<close> returns \<open>Some (err, b')\<close>: the error it returns (\<open>None\<close> for \<open>nil\<close>; the spec calls
  the one error TableFull) and the builder afterwards. The outer \<open>None\<close> is the end of the
  process in \<open>write\<close>.
\<close>

definition Add :: "TableBuilder \<Rightarrow> bytes \<Rightarrow> bytes \<Rightarrow> (error option \<times> TableBuilder) option" where
  "Add b key val =
     (if length key + length val + length_used b > tableSize then Some (Some ExceedsTableSize, b)
      else
        let b1 = (if counter b \<ge> restartInterval
                  then b \<lparr> restarts := restarts b @ [of_nat (pos b)], counter := 0, baseKey := [] \<rparr>
                  else b);
            diffKey = (if length (baseKey b1) = 0 then key else keyDiff b1 key);
            b2 = (if length (baseKey b1) = 0 then b1 \<lparr> baseKey := key \<rparr> else b1);
            h = \<lparr> plen = length key - length diffKey, klen = length diffKey,
                  vlen = length val, prev = prevOffset b2 \<rparr>;
            b3 = b2 \<lparr> prevOffset := pos b2 \<rparr>
        in case write_tb b3 (Encode h) of None \<Rightarrow> None
           | Some b4 \<Rightarrow>
          (case write_tb b4 diffKey of None \<Rightarrow> None
           | Some b5 \<Rightarrow>
          (case write_tb b5 val of None \<Rightarrow> None
           | Some b6 \<Rightarrow> Some (None, b6 \<lparr> counter := counter b6 + 1 \<rparr>))))"

text \<open>The loop of \<open>blockIndex\<close> fills \<open>out\<close> with the restarts, four bytes each, front to back.\<close>

fun blockIndex_loop :: "32 word list \<Rightarrow> bytes" where
  "blockIndex_loop [] = []"
| "blockIndex_loop (r # rs) = PutUint32 r @ blockIndex_loop rs"

definition blockIndex :: "TableBuilder \<Rightarrow> bytes \<times> TableBuilder" where
  "blockIndex b =
     (let b1 = b \<lparr> restarts := restarts b @ [of_nat (pos b)] \<rparr>
      in (blockIndex_loop (restarts b1) @ PutUint32 (of_nat (length (restarts b1))), b1))"

text \<open>
  \<open>Finish\<close> drops the error of its \<open>Add\<close>. \<open>None\<close> is a failed \<open>y.AssertTrue\<close>; otherwise the
  buffer it returns and the builder afterwards.
\<close>

definition Finish :: "TableBuilder \<Rightarrow> (bytes \<times> TableBuilder) option" where
  "Finish b =
     (case Add b [] [] of None \<Rightarrow> None
      | Some (_, b1) \<Rightarrow>
        let (index, b2) = blockIndex b1;
            newpos = int tableSize - int (length index)
        in if \<not> int (pos b2) \<le> newpos then None
           else (case write_tb (b2 \<lparr> pos := nat newpos \<rparr>) index of None \<Rightarrow> None
                 | Some b3 \<Rightarrow> if pos b3 \<noteq> tableSize then None else Some (buf b3, b3)))"

text \<open>A run of \<open>Add\<close> calls that all return \<open>nil\<close>; \<open>None\<close> when one of them does not.\<close>

fun AddAll :: "TableBuilder \<Rightarrow> (bytes \<times> bytes) list \<Rightarrow> TableBuilder option" where
  "AddAll b [] = Some b"
| "AddAll b ((key, val) # kvs) =
     (case Add b key val of Some (None, b') \<Rightarrow> AddAll b' kvs | _ \<Rightarrow> None)"

text \<open>
  What \<open>Add\<close> does when it returns \<open>nil\<close>, in closed form (lemma \<open>Add_fits\<close> proves it):
  \<open>diffKey_of\<close> is the key suffix it stores and \<open>after_Add\<close> the builder afterwards.
\<close>

definition diffKey_of :: "TableBuilder \<Rightarrow> bytes \<Rightarrow> bytes" where
  "diffKey_of b key =
     (if restartInterval \<le> counter b \<or> baseKey b = [] then key else keyDiff b key)"

definition after_Add :: "TableBuilder \<Rightarrow> bytes \<Rightarrow> bytes \<Rightarrow> TableBuilder" where
  "after_Add b key val =
     (let d = diffKey_of b key;
          h = Encode \<lparr> plen = length key - length d, klen = length d, vlen = length val,
                       prev = prevOffset b \<rparr>
      in \<lparr> counter = (if restartInterval \<le> counter b then 1 else counter b + 1),
           buf = take (pos b) (buf b) @ h @ d @ val
                   @ drop (pos b + 8 + length d + length val) (buf b),
           pos = pos b + 8 + length d + length val,
           baseKey = (if restartInterval \<le> counter b \<or> baseKey b = [] then key else baseKey b),
           restarts = (if restartInterval \<le> counter b then restarts b @ [of_nat (pos b)]
                       else restarts b),
           prevOffset = pos b \<rparr>)"

text \<open>
  The way a caller uses the builder: \<open>Reset\<close>, a run of \<open>Add\<close> calls, \<open>Finish\<close>. A reader
  finds the restart index from the final four bytes of the table.
\<close>

definition buildTable :: "(bytes \<times> bytes) list \<Rightarrow> bytes option" where
  "buildTable kvs =
     (case AddAll (Reset zeroBuilder) kvs of None \<Rightarrow> None
      | Some b \<Rightarrow> map_option fst (Finish b))"

definition trailingCount :: "bytes \<Rightarrow> 32 word" where
  "trailingCount out = Uint32 (drop (length out - 4) out)"

section \<open>Map entries of the bulk loader (boot mapper)\<close>

text \<open>
  \<open>copy(dst[i:], src)\<close> for \<open>i \<le> len(dst)\<close>: as many bytes of \<open>src\<close> as fit are written over
  \<open>dst\<close> from index \<open>i\<close>.
\<close>

definition copy_at :: "bytes \<Rightarrow> nat \<Rightarrow> bytes \<Rightarrow> bytes" where
  "copy_at dst i src = take i dst @ take (length dst - i) src @ drop (i + length src) dst"

datatype Posting_PostingType = Posting_REF | Posting_VALUE

text \<open>The fields of \<open>pb.Posting\<close> that the mapper reads or writes.\<close>

record Posting =
  Uid :: "64 word"
  Value :: bytes
  PostingType :: Posting_PostingType

text \<open>
  Modelled from the spec: the generated protobuf methods \<open>Size\<close> and \<open>MarshalToSizedBuffer\<close> of
  \<open>pb.Posting\<close> (package \<open>protos/pb\<close>) are missing. The spec gives a map entry the layout
  \<open>uid(8) || klen(4) || plen(4) || key || posting_bytes?\<close>; the posting bytes are those of an
  encoding \<open>enc\<close>, taken as a parameter, \<open>Size\<close> is their number (0 for a \<open>nil\<close> posting) and
  \<open>MarshalToSizedBuffer\<close> fills a buffer of that size with them.
\<close>

definition Posting_Size :: "(Posting \<Rightarrow> bytes) \<Rightarrow> Posting option \<Rightarrow> nat" where
  "Posting_Size enc p = (case p of None \<Rightarrow> 0 | Some q \<Rightarrow> length (enc q))"

definition Posting_Marshal :: "(Posting \<Rightarrow> bytes) \<Rightarrow> Posting option \<Rightarrow> bytes" where
  "Posting_Marshal enc p = (case p of None \<Rightarrow> [] | Some q \<Rightarrow> enc q)"

type_synonym MapEntry = bytes

definition mapEntrySize :: "(Posting \<Rightarrow> bytes) \<Rightarrow> bytes \<Rightarrow> Posting option \<Rightarrow> nat" where
  "mapEntrySize enc key p = 8 + 4 + 4 + length key + Posting_Size enc p"

text \<open>
  \<open>marshalMapEntry\<close> writes into \<open>dst\<close>; the result is \<open>dst\<close> afterwards. \<open>None\<close> is a slice
  expression out of range or the failed \<open>x.AssertTrue\<close> at the end. The capacity of a slice is
  taken to be its length.
\<close>

definition marshalMapEntry ::
  "(Posting \<Rightarrow> bytes) \<Rightarrow> bytes \<Rightarrow> 64 word \<Rightarrow> bytes \<Rightarrow> Posting option \<Rightarrow> bytes option" where
  "marshalMapEntry enc dst uid key p =
     (let uid1 = (case p of Some q \<Rightarrow> Uid q | None \<Rightarrow> uid)
      in if length dst < 16 then None
         else
           let dst1 = copy_at dst 0 (PutUint64 uid1);
               dst2 = copy_at dst1 8 (PutUint32 (of_nat (length key)));
               psz = Posting_Size enc p;
               dst3 = copy_at dst2 12 (PutUint32 (of_nat psz));
               n = min (length dst3 - 16) (length key);
               dst4 = copy_at dst3 16 key
           in if psz > 0 \<and> length dst4 - (16 + n) < psz then None
              else
                let dst5 = (if psz > 0 then copy_at dst4 (16 + n) (Posting_Marshal enc p)
                            else dst4)
                in if length dst5 = 16 + n + psz then Some dst5 else None)"

definition MapEntry_Size :: "MapEntry \<Rightarrow> nat" where
  "MapEntry_Size me = length me"

definition MapEntry_Uid :: "MapEntry \<Rightarrow> 64 word option" where
  "MapEntry_Uid me = (if length me < 8 then None else Some (Uint64 (take 8 me)))"

text \<open>\<open>16+sz\<close> is computed in \<open>uint32\<close> and wraps around.\<close>

definition MapEntry_Key :: "MapEntry \<Rightarrow> bytes option" where
  "MapEntry_Key me =
     (if length me < 12 then None
      else let sz = Uint32 (take 4 (drop 8 me));
               hi = unat (16 + sz)
           in if 16 \<le> hi \<and> hi \<le> length me then Some (take (hi - 16) (drop 16 me)) else None)"

definition MapEntry_Plist :: "MapEntry \<Rightarrow> bytes option" where
  "MapEntry_Plist me =
     (if length me < 16 then None
      else let ksz = Uint32 (take 4 (drop 8 me));
               sz = Uint32 (take 4 (drop 12 me));
               start = 16 + ksz;
               hi = start + sz
           in if unat start \<le> unat hi \<and> unat hi \<le> length me
              then Some (take (unat hi - unat start) (drop (unat start) me)) else None)"

text \<open>\<open>bytes.Compare\<close> of the Go standard library: lexicographic, bytes unsigned.\<close>

fun bytes_Compare :: "bytes \<Rightarrow> bytes \<Rightarrow> int" where
  "bytes_Compare [] [] = 0"
| "bytes_Compare [] (y # ys) = - 1"
| "bytes_Compare (x # xs) [] = 1"
| "bytes_Compare (x # xs) (y # ys) =
     (if x < y then - 1 else if y < x then 1 else bytes_Compare xs ys)"

text \<open>\<open>less\<close>; \<open>None\<close> when \<open>Key\<close> or \<open>Uid\<close> panics on one of the two entries.\<close>

definition less_MapEntry :: "MapEntry \<Rightarrow> MapEntry \<Rightarrow> bool option" where
  "less_MapEntry lhs rhs =
     (case MapEntry_Key lhs of None \<Rightarrow> None
      | Some kl \<Rightarrow>
     (case MapEntry_Key rhs of None \<Rightarrow> None
      | Some kr \<Rightarrow>
        let keyCmp = bytes_Compare kl kr
        in if keyCmp \<noteq> 0 then Some (keyCmp < 0)
           else (case MapEntry_Uid lhs of None \<Rightarrow> None
                 | Some ul \<Rightarrow>
                (case MapEntry_Uid rhs of None \<Rightarrow> None
                 | Some ur \<Rightarrow> Some (ul < ur)))))"

text \<open>
  The shard buffer \<open>cbuf\<close> (\<open>z.Buffer\<close> of the ristretto library) is the list of its slices in
  allocation order. \<open>SliceAllocate\<close> gives a fresh slice at the end; \<open>SortSlice\<close> is a comparison
  sort that calls the comparator it is given, here insertion from the back; \<open>SliceIterate\<close> visits
  the slices in order.
\<close>

fun insert_sorted :: "('a \<Rightarrow> 'a \<Rightarrow> bool option) \<Rightarrow> 'a \<Rightarrow> 'a list \<Rightarrow> 'a list option" where
  "insert_sorted lt x [] = Some [x]"
| "insert_sorted lt x (y # ys) =
     (case lt x y of None \<Rightarrow> None
      | Some True \<Rightarrow> Some (x # y # ys)
      | Some False \<Rightarrow> map_option (Cons y) (insert_sorted lt x ys))"

fun SortSlice :: "('a \<Rightarrow> 'a \<Rightarrow> bool option) \<Rightarrow> 'a list \<Rightarrow> 'a list option" where
  "SortSlice lt [] = Some []"
| "SortSlice lt (x # xs) =
     (case SortSlice lt xs of None \<Rightarrow> None | Some ys \<Rightarrow> insert_sorted lt x ys)"

text \<open>
  \<open>addMapEntry\<close>: a posting of type \<open>REF\<close> is dropped after its uid is taken. The result is the
  shard buffer with the new entry.
\<close>

definition addMapEntry ::
  "(Posting \<Rightarrow> bytes) \<Rightarrow> bytes \<Rightarrow> Posting \<Rightarrow> MapEntry list \<Rightarrow> MapEntry list option" where
  "addMapEntry enc key p cbuf =
     (let uid = Uid p;
          p1 = (if PostingType p \<noteq> Posting_REF then Some p else None);
          sz = mapEntrySize enc key p1;
          dst = replicate sz 0
      in map_option (\<lambda>me. cbuf @ [me]) (marshalMapEntry enc dst uid key p1))"

text \<open>
  A map file: the partition keys of its header and its records in the order they are written.
  The framing (\<open>u32\<close> header length, protobuf header, \<open>uvarint\<close> record length), the Snappy
  stream and the errors of the file system are left out.
\<close>

record MapFile =
  PartitionKeys :: "bytes list"
  file_records :: "MapEntry list"

text \<open>
  The first \<open>SliceIterate\<close> of \<open>writeMapEntriesToFile\<close>, over the slices still to visit, with
  \<open>header.PartitionKeys\<close> and \<open>bufSize\<close> so far. \<open>me.Key()\<close> is evaluated only once \<open>bufSize\<close>
  has reached \<open>PartitionBufSize\<close>.
\<close>

fun partitionKeys_loop :: "int \<Rightarrow> MapEntry list \<Rightarrow> bytes list \<Rightarrow> int \<Rightarrow> bytes list option" where
  "partitionKeys_loop pbs [] pks bufSize = Some pks"
| "partitionKeys_loop pbs (me # rest) pks bufSize =
     (let bufSize1 = bufSize + int (4 + length me)
      in if bufSize1 < pbs then partitionKeys_loop pbs rest pks bufSize1
         else (case MapEntry_Key me of None \<Rightarrow> None
               | Some k \<Rightarrow>
                 if length pks > 0 \<and> k = last pks
                 then partitionKeys_loop pbs rest pks bufSize1
                 else partitionKeys_loop pbs rest (pks @ [k]) 0))"

definition writeMapEntriesToFile :: "int \<Rightarrow> MapEntry list \<Rightarrow> MapFile option" where
  "writeMapEntriesToFile PartitionBufSize cbuf =
     (case SortSlice less_MapEntry cbuf of None \<Rightarrow> None
      | Some sorted_buf \<Rightarrow>
     (case partitionKeys_loop PartitionBufSize sorted_buf [] 0 of None \<Rightarrow> None
      | Some pks \<Rightarrow> Some \<lparr> PartitionKeys = pks, file_records = sorted_buf \<rparr>))"


section \<open>Edges and postings (boot mapper: processNQuad, createPostings)\<close>

text \<open>The fields of \<open>pb.Edge\<close> that the mapper uses; a \<open>nil\<close> object value is \<open>None\<close>.\<close>

record Edge =
  Subject :: string
  Predicate :: string
  ObjectId :: string
  ObjectValue :: "bytes option"
  Namespace :: "64 word"

text \<open>\<open>strings.HasPrefix\<close>, and \<open>strings.SplitN(s, sep, 2)\<close> for a separator of one character.\<close>

definition strings_HasPrefix :: "string \<Rightarrow> string \<Rightarrow> bool" where
  "strings_HasPrefix s pre = (take (length pre) s = pre)"

definition strings_SplitN2 :: "string \<Rightarrow> char \<Rightarrow> string list" where
  "strings_SplitN2 s c =
     (if c \<in> set s then [takeWhile (\<lambda>x. x \<noteq> c) s, tl (dropWhile (\<lambda>x. x \<noteq> c) s)] else [s])"

text \<open>\<open>x.ToHexString\<close>: \<open>"0x" + strconv.FormatUint(i, 16)\<close>.\<close>

definition hexdigit :: "nat \<Rightarrow> char" where
  "hexdigit d = ''0123456789abcdef'' ! d"

function FormatUint16 :: "nat \<Rightarrow> string" where
  "FormatUint16 n = (if n < 16 then [hexdigit n] else FormatUint16 (n div 16) @ [hexdigit (n mod 16)])"
  by pat_completeness auto
termination
  by (relation "measure id") auto

declare FormatUint16.simps [simp del]

definition ToHexString :: "64 word \<Rightarrow> string" where
  "ToHexString i = ''0x'' @ FormatUint16 (unat i)"

text \<open>
  \<open>x.FromHex\<close>: \<open>strconv.ParseUint(s, 16, 64)\<close> after an optional \<open>0x\<close> or \<open>0X\<close>; \<open>None\<close> is the
  fatal \<open>x.Check\<close> on a syntax or range error.
\<close>

definition hexval :: "char \<Rightarrow> nat option" where
  "hexval c =
     (let i = of_char c :: nat
      in if 48 \<le> i \<and> i \<le> 57 then Some (i - 48)
         else if 97 \<le> i \<and> i \<le> 102 then Some (i - 97 + 10)
         else if 65 \<le> i \<and> i \<le> 70 then Some (i - 65 + 10)
         else None)"

fun ParseUint16_loop :: "string \<Rightarrow> nat \<Rightarrow> nat option" where
  "ParseUint16_loop [] acc = Some acc"
| "ParseUint16_loop (c # cs) acc =
     (case hexval c of None \<Rightarrow> None | Some d \<Rightarrow> ParseUint16_loop cs (acc * 16 + d))"

definition ParseUint16 :: "string \<Rightarrow> 64 word option" where
  "ParseUint16 s =
     (if s = [] then None
      else case ParseUint16_loop s 0 of None \<Rightarrow> None
           | Some n \<Rightarrow> if n < 2 ^ 64 then Some (of_nat n) else None)"

definition FromHex :: "string \<Rightarrow> 64 word option" where
  "FromHex s =
     (if length s = 0 then Some 0
      else ParseUint16 (if strings_HasPrefix s ''0x'' \<or> strings_HasPrefix s ''0X''
                        then drop 2 s else s))"

text \<open>
  \<open>processNQuad\<close>, up to the edge \<open>de\<close> that the map entries are made from. The local \<open>typ\<close> is
  the text of a blank-node subject between \<open>_:\<close> and the first dot; \<open>de.Predicate\<close> is
  \<open>typ + "." + nq.Predicate\<close> on both branches, then prefixed with the namespace.
  \<open>m.uid\<close> (the UID allocator, with its state \<open>xids\<close>) and \<open>x.NamespaceAttr\<close> are parameters;
  \<open>None\<close> is the panic on UID 0; \<open>math.MaxUint64\<close> is \<open>- 1\<close>.
\<close>

definition processNQuad_typ :: "string \<Rightarrow> string" where
  "processNQuad_typ subject =
     (if strings_HasPrefix subject ''_:''
      then hd (strings_SplitN2 (drop 2 subject) CHR ''.'') else [])"

definition processNQuad_Predicate :: "Edge \<Rightarrow> string" where
  "processNQuad_Predicate nq = processNQuad_typ (Subject nq) @ ''.'' @ Predicate nq"

definition processNQuad_de ::
  "64 word \<Rightarrow> (string \<Rightarrow> 64 word \<Rightarrow> 'x \<Rightarrow> 64 word \<times> 'x) \<Rightarrow> (64 word \<Rightarrow> string \<Rightarrow> string)
     \<Rightarrow> Edge \<Rightarrow> 'x \<Rightarrow> (Edge \<times> 'x) option" where
  "processNQuad_de optNamespace uid NamespaceAttr nq xids =
     (let ns = (if optNamespace \<noteq> - 1 then optNamespace else Namespace nq);
          (sid, xids1) = uid (Subject nq) ns xids
      in if sid = 0 then None
         else (case ObjectValue nq of
             None \<Rightarrow>
               let (oid, xids2) = uid (ObjectId nq) ns xids1
               in if oid = 0 then None
                  else Some (\<lparr> Subject = ToHexString sid,
                               Predicate = NamespaceAttr ns (processNQuad_Predicate nq),
                               ObjectId = ToHexString oid, ObjectValue = None,
                               Namespace = ns \<rparr>, xids2)
           | Some v \<Rightarrow>
               Some (\<lparr> Subject = ToHexString sid,
                       Predicate = NamespaceAttr ns (processNQuad_Predicate nq),
                       ObjectId = [], ObjectValue = Some v, Namespace = ns \<rparr>, xids1)))"

text \<open>The fields of \<open>pb.SchemaUpdate\<close> that the mapper and the count-index rebuild read.\<close>

record SchemaUpdate =
  Count :: bool
  List :: bool
  Tokenizer :: "string list"

text \<open>
  Modelled from the spec: \<open>posting.NewPosting\<close> (package \<open>posting\<close>) is missing. By the
  spec, the posting of an object-UID edge has type \<open>REF\<close>, the object UID as its uid and no
  value; the posting of an object-value edge has type \<open>VALUE\<close> and the value (its uid is set by
  \<open>createPostings\<close>). The object UID of an edge is what \<open>x.FromHex\<close> reads from its \<open>ObjectId\<close>.
\<close>

definition NewPosting :: "Edge \<Rightarrow> Posting option" where
  "NewPosting nq =
     (case ObjectValue nq of
        None \<Rightarrow> map_option (\<lambda>u. \<lparr> Uid = u, Value = [], PostingType = Posting_REF \<rparr>)
                  (FromHex (ObjectId nq))
      | Some v \<Rightarrow> Some \<lparr> Uid = 0, Value = v, PostingType = Posting_VALUE \<rparr>)"

text \<open>
  \<open>createPostings\<close>, with \<open>posting.NewPosting\<close>, the schema lookup and \<open>farm.Fingerprint64\<close> as
  parameters. \<open>None\<close> is the fatal \<open>x.Check\<close> or the failed assertion that the schema exists.
\<close>

definition createPostings ::
  "(Edge \<Rightarrow> Posting option) \<Rightarrow> (string \<Rightarrow> SchemaUpdate option) \<Rightarrow> (bytes \<Rightarrow> 64 word)
     \<Rightarrow> Edge \<Rightarrow> Posting option" where
  "createPostings newPosting getSchema Fingerprint64 nq =
     (case newPosting nq of None \<Rightarrow> None
      | Some p \<Rightarrow>
     (case getSchema (Predicate nq) of None \<Rightarrow> None
      | Some sch \<Rightarrow>
     (case ObjectValue nq of
        Some v \<Rightarrow> if List sch then Some (p \<lparr> Uid := Fingerprint64 v \<rparr>)
                  else Some (p \<lparr> Uid := - 1 \<rparr>)
      | None \<Rightarrow> Some p)))"

section \<open>Count index rebuild (posting/index.go)\<close>

record IndexRebuild =
  Attr :: string
  StartTs :: "64 word"
  OldSchema :: "SchemaUpdate option"
  CurrentSchema :: "SchemaUpdate option"

datatype indexOp = indexNoop | indexDelete | indexRebuild

text \<open>The empty schema \<open>&pb.SchemaUpdate{}\<close>.\<close>

definition emptySchemaUpdate :: SchemaUpdate where
  "emptySchemaUpdate = \<lparr> Count = False, List = False, Tokenizer = [] \<rparr>"

text \<open>\<open>None\<close> is the failed assertion that the current schema is not \<open>nil\<close>.\<close>

definition needsCountIndexRebuild :: "IndexRebuild \<Rightarrow> indexOp option" where
  "needsCountIndexRebuild rb =
     (case CurrentSchema rb of None \<Rightarrow> None
      | Some cur \<Rightarrow>
        let old = (case OldSchema rb of None \<Rightarrow> emptySchemaUpdate | Some old \<Rightarrow> old)
        in if Count cur = Count old then Some indexNoop
           else if \<not> Count cur then Some indexDelete
           else Some indexRebuild)"

text \<open>
  \<open>prefixesToDropCountIndex\<close>; \<open>pk.CountPrefix()\<close> of the attribute and \<open>x.ByteSplit\<close> are
  parameters. \<open>[]\<close> is the \<open>nil\<close> result; \<open>None\<close> is a panic (also on an empty count prefix, whose
  byte 0 cannot be set).
\<close>

definition prefixesToDropCountIndex ::
  "(string \<Rightarrow> bytes) \<Rightarrow> byte \<Rightarrow> IndexRebuild \<Rightarrow> bytes list option" where
  "prefixesToDropCountIndex CountPrefix ByteSplit rb =
     (case needsCountIndexRebuild rb of None \<Rightarrow> None
      | Some op \<Rightarrow>
        if op = indexNoop then Some []
        else
          let prefixes = [] @ [CountPrefix (Attr rb)];
              countPrefix = CountPrefix (Attr rb)
          in if countPrefix = [] then None
             else Some (prefixes @ [countPrefix[0 := ByteSplit]]))"

text \<open>
  \<open>rebuildCountIndex\<close>: whether it returns at once or runs the rebuilder over the data prefix;
  \<open>run\<close> is the result of \<open>builder.Run\<close>.
\<close>

datatype 'e rebuild_outcome = NotRebuilt | Rebuilt 'e

definition rebuildCountIndex :: "(IndexRebuild \<Rightarrow> 'e) \<Rightarrow> IndexRebuild \<Rightarrow> 'e rebuild_outcome option" where
  "rebuildCountIndex run rb =
     (case needsCountIndexRebuild rb of None \<Rightarrow> None
      | Some op \<Rightarrow> if op \<noteq> indexRebuild then Some NotRebuilt else Some (Rebuilt (run rb)))"

section \<open>Lemmas: big-endian round trips\<close>

lemma length_PutUint16 [simp]: "length (PutUint16 v) = 2"
  by (simp add: PutUint16_def)

lemma length_PutUint32 [simp]: "length (PutUint32 v) = 4"
  by (simp add: PutUint32_def)

lemma length_PutUint64 [simp]: "length (PutUint64 v) = 8"
  by (simp add: PutUint64_def)

lemma Uint16_PutUint16 [simp]: "Uint16 (PutUint16 v) = v"
proof (rule bit_word_eqI)
  fix n assume "n < LENGTH(16)"
  then consider "n < 8" | "8 \<le> n" "n < 16"
    by fastforce
  then show "bit (Uint16 (PutUint16 v)) n = bit v n"
    by cases (auto simp add: Uint16_def PutUint16_def bit_simps)
qed

lemma Uint32_PutUint32 [simp]: "Uint32 (PutUint32 v) = v"
proof (rule bit_word_eqI)
  fix n assume "n < LENGTH(32)"
  then have n: "n < 32" by simp
  consider "n < 8" | "8 \<le> n" "n < 16" | "16 \<le> n" "n < 24" | "24 \<le> n" "n < 32"
    using n by linarith
  then show "bit (Uint32 (PutUint32 v)) n = bit v n"
    by cases (auto simp add: Uint32_def PutUint32_def bit_simps)
qed

lemma Uint64_PutUint64 [simp]: "Uint64 (PutUint64 v) = v"
proof (rule bit_word_eqI)
  fix n assume "n < LENGTH(64)"
  then have n: "n < 64" by simp
  consider "n < 8" | "8 \<le> n" "n < 16" | "16 \<le> n" "n < 24" | "24 \<le> n" "n < 32"
    | "32 \<le> n" "n < 40" | "40 \<le> n" "n < 48" | "48 \<le> n" "n < 56" | "56 \<le> n" "n < 64"
    using n by linarith
  then show "bit (Uint64 (PutUint64 v)) n = bit v n"
    by cases (auto simp add: Uint64_def PutUint64_def bit_simps)
qed

section \<open>Lemmas: the builder\<close>

lemma length_Encode [simp]: "length (Encode h) = 8"
  by (simp add: Encode_def)

lemma Decode_Encode:
  "Decode (Encode h) = Some \<lparr> plen = plen h mod 2 ^ 16, klen = klen h mod 2 ^ 16,
     vlen = vlen h mod 2 ^ 16, prev = prev h mod 2 ^ 16 \<rparr>"
  by (simp add: Decode_def Encode_def unat_of_nat)

lemma keyDiff_length: "length (keyDiff b key) \<le> length key"
  by (simp add: keyDiff_def)

lemma diffKey_of_length: "length (diffKey_of b key) \<le> length key"
  by (simp add: diffKey_of_def keyDiff_length)

lemma Add_full:
  "tableSize < length key + length val + length_used b \<Longrightarrow>
   Add b key val = Some (Some ExceedsTableSize, b)"
  by (simp add: Add_def)

lemma Add_TableFull_unchanged:
  assumes "Add b key val = Some (Some e, b')"
  shows "b' = b"
  using assms
  by (auto simp add: Add_def Let_def split: if_splits option.splits)

lemma Add_fits:
  assumes "length key + length val + length_used b \<le> tableSize"
  shows "Add b key val =
     (if length (buf b) < pos b + 8 + length (diffKey_of b key) + length val then None
      else Some (None, after_Add b key val))"
proof -
  define b1 where "b1 = (if counter b \<ge> restartInterval
                  then b \<lparr> restarts := restarts b @ [of_nat (pos b)], counter := 0, baseKey := [] \<rparr>
                  else b)"
  define d where "d = diffKey_of b key"
  define b2 where "b2 = (if length (baseKey b1) = 0 then b1 \<lparr> baseKey := key \<rparr> else b1)"
  define h where "h = \<lparr> plen = length key - length d, klen = length d,
                  vlen = length val, prev = prevOffset b2 \<rparr>"
  define b3 where "b3 = b2 \<lparr> prevOffset := pos b2 \<rparr>"
  have d: "d = (if length (baseKey b1) = 0 then key else keyDiff b1 key)"
    by (auto simp add: d_def diffKey_of_def b1_def keyDiff_def)
  have A: "Add b key val = (case write_tb b3 (Encode h) of None \<Rightarrow> None
           | Some b4 \<Rightarrow>
          (case write_tb b4 d of None \<Rightarrow> None
           | Some b5 \<Rightarrow>
          (case write_tb b5 val of None \<Rightarrow> None
           | Some b6 \<Rightarrow> Some (None, b6 \<lparr> counter := counter b6 + 1 \<rparr>))))"
    using assms unfolding Add_def Let_def d b3_def h_def b2_def b1_def by simp
  have p3: "pos b3 = pos b" "buf b3 = buf b"
    by (simp_all add: b3_def b2_def b1_def)
  show ?thesis
  proof (cases "length (buf b) < pos b + 8 + length d + length val")
    case True
    then show ?thesis
      unfolding A d_def [symmetric]
      by (auto simp add: write_tb_def p3 split: option.splits)
  next
    case False
    then have l: "pos b + 8 + length d + length val \<le> length (buf b)"
      by simp
    have "b3\<lparr>buf := take (pos b) (buf b) @ Encode h @
             d @ val @ drop (length val + (length d + (pos b + 8))) (buf b),
             pos := pos b + 8 + length d + length val,
             counter := Suc (counter b3)\<rparr> = after_Add b key val"
      by (rule TableBuilder.equality)
        (simp_all add: after_Add_def Let_def b3_def b2_def b1_def h_def d_def add_ac)
    with l False show ?thesis
      unfolding A d_def [symmetric]
      by (simp add: write_tb_def p3) arith
  qed
qed

lemma after_Add_simps [simp]:
  "counter (after_Add b key val) = (if restartInterval \<le> counter b then 1 else counter b + 1)"
  "pos (after_Add b key val) = pos b + 8 + length (diffKey_of b key) + length val"
  "restarts (after_Add b key val) =
     (if restartInterval \<le> counter b then restarts b @ [of_nat (pos b)] else restarts b)"
  "prevOffset (after_Add b key val) = pos b"
  "baseKey (after_Add b key val) =
     (if restartInterval \<le> counter b \<or> baseKey b = [] then key else baseKey b)"
  by (simp_all add: after_Add_def Let_def)

lemma after_Add_buf:
  "buf (after_Add b key val) =
     take (pos b) (buf b)
       @ Encode \<lparr> plen = length key - length (diffKey_of b key),
                   klen = length (diffKey_of b key), vlen = length val, prev = prevOffset b \<rparr>
       @ diffKey_of b key @ val
       @ drop (pos b + 8 + length (diffKey_of b key) + length val) (buf b)"
  by (simp add: after_Add_def Let_def)

lemma after_Add_length_buf:
  "pos b + 8 + length (diffKey_of b key) + length val \<le> length (buf b) \<Longrightarrow>
   length (buf (after_Add b key val)) = length (buf b)"
  by (simp add: after_Add_buf)

lemma after_Add_header:
  "pos b \<le> length (buf b) \<Longrightarrow>
   take 8 (drop (pos b) (buf (after_Add b key val))) =
     Encode \<lparr> plen = length key - length (diffKey_of b key),
               klen = length (diffKey_of b key), vlen = length val, prev = prevOffset b \<rparr>"
  by (simp add: after_Add_buf)

lemma length_blockIndex_loop [simp]: "length (blockIndex_loop rs) = 4 * length rs"
  by (induction rs) simp_all

lemma diffKey_of_Nil [simp]: "diffKey_of b [] = []"
  by (simp add: diffKey_of_def keyDiff_def)

lemma Add_nil_D:
  assumes "Add b key val = Some (None, b')"
  shows "b' = after_Add b key val"
    and "length key + length val + length_used b \<le> tableSize"
    and "pos b + 8 + length (diffKey_of b key) + length val \<le> length (buf b)"
proof -
  have f: "length key + length val + length_used b \<le> tableSize"
    using assms by (cases "tableSize < length key + length val + length_used b")
      (simp_all add: Add_full)
  from Add_fits [OF f] assms
  show "b' = after_Add b key val"
    and "pos b + 8 + length (diffKey_of b key) + length val \<le> length (buf b)"
    by (simp_all split: if_splits)
  show "length key + length val + length_used b \<le> tableSize"
    by (rule f)
qed

lemma Finish_full_abort:
  assumes "tableSize < length_used b" and "tableSize < pos b + 4 * length (restarts b) + 8"
  shows "Finish b = None"
  using assms by (simp add: Finish_def Add_full blockIndex_def Let_def)

lemma Finish_fits:
  assumes f: "length_used b \<le> tableSize" and lb: "length (buf b) = tableSize"
    and room: "pos b + 8 + 4 * length (restarts (after_Add b [] [])) + 8 \<le> tableSize"
  shows "\<exists>out b'. Finish b = Some (out, b') \<and> length out = tableSize
     \<and> restarts b' = restarts (after_Add b [] []) @ [of_nat (pos b + 8)]
     \<and> drop (tableSize - (4 * length (restarts b') + 4)) out
         = blockIndex_loop (restarts b') @ PutUint32 (of_nat (length (restarts b')))"
proof -
  let ?b1 = "after_Add b [] []"
  define rs where "rs = restarts ?b1 @ [of_nat (pos ?b1)]"
  define index where "index = blockIndex_loop rs @ PutUint32 (of_nat (length rs))"
  define np where "np = tableSize - length index"
  from f lb have a: "Add b [] [] = Some (None, ?b1)"
    using Add_fits [of "[]" "[]" b] by (simp add: length_used_def)
  from f lb have l1: "length (buf ?b1) = tableSize"
    by (simp add: after_Add_length_buf length_used_def)
  have n: "length index = 4 * length rs + 4"
    by (simp add: index_def)
  have bi: "blockIndex ?b1 = (index, ?b1\<lparr>restarts := rs\<rparr>)"
    by (simp add: blockIndex_def Let_def index_def rs_def)
  have le: "pos ?b1 + length index \<le> tableSize"
    using room by (simp add: n rs_def)
  then have npi: "int tableSize - int (length index) = int np"
    by (simp add: np_def of_nat_diff)
  have c: "int (pos ?b1) \<le> int np"
    using le by (simp add: np_def)
  have np2: "np + length index = tableSize" "np \<le> tableSize"
    using le by (simp_all add: np_def)
  have w: "write_tb (?b1\<lparr>restarts := rs, pos := np\<rparr>) index
     = Some (?b1\<lparr>restarts := rs, pos := tableSize, buf := take np (buf ?b1) @ index\<rparr>)"
    by (simp add: write_tb_def l1 np2) (use np2 in arith)
  have F: "Finish b = Some (take np (buf ?b1) @ index,
      ?b1\<lparr>restarts := rs, pos := tableSize, buf := take np (buf ?b1) @ index\<rparr>)"
    using c by (simp add: Finish_def a bi npi w)
  have "length (take np (buf ?b1) @ index) = tableSize"
    by (simp add: l1 np2)
  moreover have "drop (tableSize - (4 * length rs + 4)) (take np (buf ?b1) @ index) = index"
    using np2 by (simp add: n [symmetric] np_def [symmetric] l1)
  ultimately show ?thesis
    unfolding F by (simp add: rs_def index_def)
qed

lemma drop_index_count:
  assumes "length out = tableSize" and "4 * r + 4 \<le> tableSize"
    and "drop (tableSize - (4 * r + 4)) out = blockIndex_loop rs @ PutUint32 c"
    and "length rs = r"
  shows "trailingCount out = c"
proof -
  have "drop (length out - 4) out = drop (4 * r) (drop (tableSize - (4 * r + 4)) out)"
    using assms(1,2) by simp
  also have "\<dots> = PutUint32 c"
    by (simp add: assms(3,4))
  finally show ?thesis
    by (simp add: trailingCount_def)
qed

lemma AddAll_fits:
  assumes "length (buf b) = tableSize"
    and "pos b + (\<Sum>(k, v)\<leftarrow>kvs. 8 + length k + length v)
           + 4 * (length (restarts b) + length kvs) + 14 \<le> tableSize"
  shows "\<exists>b'. AddAll b kvs = Some b' \<and> length (buf b') = tableSize
     \<and> pos b' \<le> pos b + (\<Sum>(k, v)\<leftarrow>kvs. 8 + length k + length v)"
  using assms
proof (induction kvs arbitrary: b)
  case Nil
  then show ?case by simp
next
  case (Cons kv kvs)
  obtain k v where kv: "kv = (k, v)"
    by (cases kv)
  let ?b1 = "after_Add b k v"
  have d: "length (diffKey_of b k) \<le> length k"
    by (rule diffKey_of_length)
  from Cons.prems have f: "length k + length v + length_used b \<le> tableSize"
    by (simp add: kv length_used_def)
  from Cons.prems d have l: "pos b + 8 + length (diffKey_of b k) + length v \<le> length (buf b)"
    by (simp add: kv)
  from Add_fits [OF f] l have a: "Add b k v = Some (None, ?b1)"
    by simp
  have l1: "length (buf ?b1) = tableSize"
    using l Cons.prems(1) by (simp add: after_Add_length_buf)
  have "pos ?b1 + (\<Sum>(k, v)\<leftarrow>kvs. 8 + length k + length v)
           + 4 * (length (restarts ?b1) + length kvs) + 14 \<le> tableSize"
    using Cons.prems(2) d by (simp add: kv)
  from Cons.IH [OF l1 this] obtain b' where
    "AddAll ?b1 kvs = Some b'" "length (buf b') = tableSize"
    "pos b' \<le> pos ?b1 + (\<Sum>(k, v)\<leftarrow>kvs. 8 + length k + length v)"
    by blast
  with d show ?case
    by (simp add: kv a)
qed

lemma AddAll_count:
  assumes "AddAll b kvs = Some b'" and "counter b \<le> restartInterval"
  shows "counter b' \<le> restartInterval
    \<and> restartInterval * length (restarts b') + counter b'
        = restartInterval * length (restarts b) + counter b + length kvs
    \<and> (kvs \<noteq> [] \<longrightarrow> 0 < counter b')"
  using assms
proof (induction kvs arbitrary: b)
  case Nil
  then show ?case by simp
next
  case (Cons kv kvs)
  obtain k v where kv: "kv = (k, v)"
    by (cases kv)
  from Cons.prems(1) obtain b1 where a: "Add b k v = Some (None, b1)"
    and r: "AddAll b1 kvs = Some b'"
    by (auto simp add: kv split: option.splits prod.splits)
  from Add_nil_D(1) [OF a] have b1: "b1 = after_Add b k v" .
  have c1: "counter b1 \<le> restartInterval" "0 < counter b1"
    using Cons.prems(2) by (simp_all add: b1 restartInterval_def)
  have m: "restartInterval * length (restarts b1) + counter b1
      = restartInterval * length (restarts b) + counter b + 1"
    using Cons.prems(2) by (simp add: b1)
  from Cons.IH [OF r c1(1)] m c1(2) r show ?case
    by (cases kvs) auto
qed


lemma AddAll_append:
  "AddAll b (xs @ ys) = (case AddAll b xs of None \<Rightarrow> None | Some b1 \<Rightarrow> AddAll b1 ys)"
  by (induction xs arbitrary: b) (auto split: option.splits)

lemma AddAll_no_restart:
  assumes "AddAll b kvs = Some b'" and "counter b + length kvs \<le> restartInterval"
  shows "restarts b' = restarts b \<and> counter b' = counter b + length kvs"
  using assms
proof (induction kvs arbitrary: b)
  case Nil
  then show ?case by simp
next
  case (Cons kv kvs)
  obtain k v where kv: "kv = (k, v)"
    by (cases kv)
  from Cons.prems(1) obtain b1 where a: "Add b k v = Some (None, b1)"
    and r: "AddAll b1 kvs = Some b'"
    by (auto simp add: kv split: option.splits prod.splits)
  from Add_nil_D(1) [OF a] have b1: "b1 = after_Add b k v" .
  from Cons.prems(2) have c: "counter b1 = counter b + 1" "restarts b1 = restarts b"
    by (simp_all add: b1)
  with Cons.prems(2) have "counter b1 + length kvs \<le> restartInterval"
    by simp
  from Cons.IH [OF r this] c show ?case
    by simp
qed

lemma AddAll_block:
  assumes "AddAll b (kv # kvs) = Some b'" and "restartInterval \<le> counter b"
    and "1 + length kvs \<le> restartInterval"
  shows "restarts b' = restarts b @ [of_nat (pos b)] \<and> counter b' = 1 + length kvs"
proof -
  obtain k v where kv: "kv = (k, v)"
    by (cases kv)
  from assms(1) obtain b1 where a: "Add b k v = Some (None, b1)"
    and r: "AddAll b1 kvs = Some b'"
    by (auto simp add: kv split: option.splits prod.splits)
  from Add_nil_D(1) [OF a] have b1: "b1 = after_Add b k v" .
  from assms(2) have c: "counter b1 = 1" "restarts b1 = restarts b @ [of_nat (pos b)]"
    by (simp_all add: b1)
  with assms(3) have "counter b1 + length kvs \<le> restartInterval"
    by simp
  from AddAll_no_restart [OF r this] c show ?thesis
    by simp
qed

lemma table_250:
  assumes n: "length kvs = 250"
    and sz: "(\<Sum>(k, v)\<leftarrow>kvs. 8 + length k + length v) + 1014 \<le> tableSize"
    and b0: "length (buf b0) \<le> tableSize"
  shows "\<exists>b100 b200 b out b'.
      AddAll (Reset b0) (take 100 kvs) = Some b100
    \<and> AddAll (Reset b0) (take 200 kvs) = Some b200
    \<and> AddAll (Reset b0) kvs = Some b
    \<and> Finish b = Some (out, b')
    \<and> restarts b' = [of_nat (pos b100), of_nat (pos b200), of_nat (pos b + 8)]
    \<and> length out = tableSize
    \<and> drop (tableSize - 16) out
         = PutUint32 (of_nat (pos b100)) @ PutUint32 (of_nat (pos b200))
             @ PutUint32 (of_nat (pos b + 8)) @ PutUint32 3
    \<and> trailingCount out = 3"
proof -
  let ?r = "Reset b0"
  have r: "length (buf ?r) = tableSize" "pos ?r = 0" "restarts ?r = []" "counter ?r = 0"
    using b0 by (auto simp add: Reset_def)
  have "pos ?r + (\<Sum>(k, v)\<leftarrow>kvs. 8 + length k + length v)
           + 4 * (length (restarts ?r) + length kvs) + 14 \<le> tableSize"
    using sz by (simp add: r n)
  from AddAll_fits [OF r(1) this] obtain b where b: "AddAll ?r kvs = Some b"
    and lb: "length (buf b) = tableSize"
    and pb: "pos b \<le> (\<Sum>(k, v)\<leftarrow>kvs. 8 + length k + length v)"
    by (auto simp add: r)
  define xs where "xs = take 100 kvs"
  define ys where "ys = take 100 (drop 100 kvs)"
  define zs where "zs = drop 200 kvs"
  have len: "length xs = 100" "length ys = 100" "length zs = 50"
    using n by (simp_all add: xs_def ys_def zs_def)
  have d2: "drop 100 (drop 100 kvs) = drop 200 kvs"
    by simp
  have "drop 100 kvs = ys @ zs"
    unfolding ys_def zs_def d2 [symmetric] by (rule append_take_drop_id [symmetric])
  then have split1: "kvs = xs @ ys @ zs"
    unfolding xs_def by (metis append_take_drop_id)
  have split2: "take 200 kvs = xs @ ys"
    by (subst split1) (simp add: len)
  from b obtain b100 where b100: "AddAll ?r xs = Some b100"
    and b100': "AddAll b100 (ys @ zs) = Some b"
    by (auto simp add: split1 AddAll_append split: option.splits)
  from b100' obtain b200 where b200': "AddAll b100 ys = Some b200"
    and b200'': "AddAll b200 zs = Some b"
    by (auto simp add: AddAll_append split: option.splits)
  have b200: "AddAll ?r (take 200 kvs) = Some b200"
    by (simp add: split2 AddAll_append b100 b200')
  from AddAll_no_restart [OF b100] have s100: "restarts b100 = []" "counter b100 = 100"
    by (simp_all add: r len restartInterval_def)
  obtain y ys' where ys: "ys = y # ys'" and lys: "length ys' = 99"
    using len(2) by (cases ys) auto
  from AddAll_block [OF b200' [unfolded ys]]
  have s200: "restarts b200 = [of_nat (pos b100)]" "counter b200 = 100"
    by (simp_all add: s100 lys restartInterval_def)
  obtain z zs' where zs: "zs = z # zs'" and lzs: "length zs' = 49"
    using len(3) by (cases zs) auto
  from AddAll_block [OF b200'' [unfolded zs]]
  have sb: "restarts b = [of_nat (pos b100), of_nat (pos b200)]" "counter b = 50"
    by (simp_all add: s200 lzs restartInterval_def)
  have ra: "restarts (after_Add b [] []) = restarts b"
    by (simp add: sb restartInterval_def)
  have f: "length_used b \<le> tableSize"
    using pb sz by (simp add: length_used_def sb)
  have room: "pos b + 8 + 4 * length (restarts (after_Add b [] [])) + 8 \<le> tableSize"
    using pb sz by (simp add: ra sb)
  from Finish_fits [OF f lb room] obtain out b' where F: "Finish b = Some (out, b')"
    and lo: "length out = tableSize"
    and rs0: "restarts b' = restarts (after_Add b [] []) @ [of_nat (pos b + 8)]"
    and dr: "drop (tableSize - (4 * length (restarts b') + 4)) out
         = blockIndex_loop (restarts b') @ PutUint32 (of_nat (length (restarts b')))"
    by blast
  have rs: "restarts b' = [of_nat (pos b100), of_nat (pos b200), of_nat (pos b + 8)]"
    unfolding rs0 ra sb by simp
  have t: "16 \<le> tableSize"
    by (simp add: tableSize_def)
  from dr have dr': "drop (tableSize - (4 * 3 + 4)) out
      = blockIndex_loop (restarts b') @ PutUint32 3"
    by (simp add: rs)
  have tc: "trailingCount out = 3"
    by (rule drop_index_count [OF lo _ dr']) (simp_all add: rs tableSize_def)
  from dr' have "drop (tableSize - 16) out
         = PutUint32 (of_nat (pos b100)) @ PutUint32 (of_nat (pos b200))
             @ PutUint32 (of_nat (pos b + 8)) @ PutUint32 3"
    by (simp add: rs)
  with b100 b200 b F rs lo tc show ?thesis
    unfolding xs_def by blast
qed

lemma Finish_length:
  assumes "Finish b = Some (out, b')"
  shows "length out = length (buf b)"
proof -
  from assms obtain e b1 where a: "Add b [] [] = Some (e, b1)"
    by (auto simp add: Finish_def split: option.splits)
  have "length (buf b1) = length (buf b)"
  proof (cases e)
    case None
    with a Add_nil_D [of b "[]" "[]" b1] show ?thesis
      by (simp add: after_Add_length_buf)
  next
    case (Some err)
    with a Add_TableFull_unchanged [of b "[]" "[]" err b1] show ?thesis
      by simp
  qed
  with assms a show ?thesis
    by (auto simp add: Finish_def blockIndex_def Let_def write_tb_def
        split: option.splits if_splits)
qed

text \<open>
  Claim C1. \<open>Add\<close> returns the table-full error exactly when the used length
  (\<open>pos + 6 + 4 * len(restarts) + 8\<close>) plus the lengths of key and value exceeds \<open>tableSize\<close>,
  and whenever it returns an error the builder is the one it was called on.
\<close>

theorem Add_TableFull_iff_unchanged:
  "((\<exists>b'. Add b key val = Some (Some ExceedsTableSize, b')) \<longleftrightarrow>
      tableSize < pos b + 6 + 4 * length (restarts b) + 8 + length key + length val)
   \<and> (\<forall>e b'. Add b key val = Some (Some e, b') \<longrightarrow> b' = b)"
proof (cases "tableSize < length key + length val + length_used b")
  case True
  then show ?thesis
    by (simp add: Add_full) (simp add: length_used_def)
next
  case False
  then have "length key + length val + length_used b \<le> tableSize"
    by simp
  from Add_fits [OF this] False show ?thesis
    by (simp add: length_used_def)
qed

theorem Add_TableFull_iff_unchanged_witness:
  "tableSize < pos (Reset zeroBuilder) + 6 + 4 * length (restarts (Reset zeroBuilder)) + 8
      + length ([] :: bytes) + length (replicate tableSize (0 :: byte))
   \<and> Add (Reset zeroBuilder) [] (replicate tableSize 0)
       = Some (Some ExceedsTableSize, Reset zeroBuilder)"
proof -
  let ?b = "Reset zeroBuilder" and ?v = "replicate tableSize (0 :: byte)"
  have c: "tableSize < pos ?b + 6 + 4 * length (restarts ?b) + 8 + length ([] :: bytes) + length ?v"
    by (simp add: Reset_def)
  with Add_TableFull_iff_unchanged [of ?b "[]" ?v]
  obtain b' where b': "Add ?b [] ?v = Some (Some ExceedsTableSize, b')"
    by blast
  with Add_TableFull_iff_unchanged [of ?b "[]" ?v] have "b' = ?b"
    by blast
  with b' c show ?thesis
    by blast
qed

text \<open>
  Claim C10. \<open>Add\<close> checks the table size only: whenever the record fits the table it is
  written, and the header at the old \<open>pos\<close> holds the prefix length, the suffix length, the
  value length and the previous offset as 16-bit big-endian fields, so what a reader decodes is
  each true value modulo \<open>2 ^ 16\<close>.
\<close>

theorem header_fields_truncated:
  assumes "length key + length val + length_used b \<le> tableSize"
    and "tableSize \<le> length (buf b)"
  shows "\<exists>b'. Add b key val = Some (None, b')
    \<and> take 8 (drop (pos b) (buf b')) =
        Encode \<lparr> plen = length key - length (diffKey_of b key),
                  klen = length (diffKey_of b key), vlen = length val, prev = prevOffset b \<rparr>
    \<and> Decode (take 8 (drop (pos b) (buf b'))) =
        Some \<lparr> plen = (length key - length (diffKey_of b key)) mod 2 ^ 16,
               klen = length (diffKey_of b key) mod 2 ^ 16,
               vlen = length val mod 2 ^ 16,
               prev = prevOffset b mod 2 ^ 16 \<rparr>"
proof -
  have "length (diffKey_of b key) \<le> length key"
    by (rule diffKey_of_length)
  with assms have l: "pos b + 8 + length (diffKey_of b key) + length val \<le> length (buf b)"
    by (simp add: length_used_def)
  then have "Add b key val = Some (None, after_Add b key val)"
    using Add_fits [OF assms(1)] by simp
  moreover from l have "pos b \<le> length (buf b)"
    by simp
  ultimately show ?thesis
    by (simp add: after_Add_header Decode_Encode)
qed

theorem header_fields_truncated_witness:
  "length [97 :: byte] + length (replicate 65536 (0 :: byte)) + length_used (Reset zeroBuilder)
     \<le> tableSize
   \<and> tableSize \<le> length (buf (Reset zeroBuilder))
   \<and> (\<exists>b'. Add (Reset zeroBuilder) [97] (replicate 65536 0) = Some (None, b')
        \<and> Decode (take 8 (drop 0 (buf b')))
            = Some \<lparr> plen = 0, klen = 1, vlen = 0, prev = 0 \<rparr>)"
proof -
  let ?b = "Reset zeroBuilder" and ?v = "replicate 65536 (0 :: byte)"
  have h1: "length [97 :: byte] + length ?v + length_used ?b \<le> tableSize"
    by (simp add: length_used_def Reset_def zeroBuilder_def tableSize_def)
  have h2: "tableSize \<le> length (buf ?b)"
    by (simp add: Reset_def zeroBuilder_def tableSize_def)
  have d: "diffKey_of ?b [97] = [97]" "pos ?b = 0" "prevOffset ?b = 0"
    by (simp_all add: diffKey_of_def Reset_def zeroBuilder_def)
  from header_fields_truncated [OF h1 h2] h1 h2 show ?thesis
    by (simp add: d) blast
qed

lemma keyDiff_loop_same: "i \<le> length k \<Longrightarrow> keyDiff_loop k k i = length k"
proof (induction "length k - i" arbitrary: i)
  case 0
  then show ?case
    by (subst keyDiff_loop.simps) simp
next
  case (Suc n)
  then have "i < length k" "n = length k - (i + 1)" "i + 1 \<le> length k"
    by simp_all
  with Suc.hyps(1) [of "i + 1"] show ?case
    by (subst keyDiff_loop.simps) simp
qed

lemma diffKey_of_same:
  "baseKey b = k \<Longrightarrow> k \<noteq> [] \<Longrightarrow> counter b < restartInterval \<Longrightarrow> diffKey_of b k = []"
  by (simp add: diffKey_of_def keyDiff_def keyDiff_loop_same)

lemma AddAll_run:
  assumes "baseKey b = k" and "k \<noteq> []" and "counter b + n \<le> restartInterval"
    and "length (buf b) = tableSize"
    and "pos b + n * (8 + length v) + length k + 14 + 4 * length (restarts b) \<le> tableSize"
  shows "\<exists>b'. AddAll b (replicate n (k, v)) = Some b' \<and> pos b' = pos b + n * (8 + length v)
     \<and> counter b' = counter b + n \<and> restarts b' = restarts b \<and> baseKey b' = k
     \<and> length (buf b') = tableSize"
  using assms
proof (induction n arbitrary: b)
  case 0
  then show ?case by simp
next
  case (Suc n)
  let ?b1 = "after_Add b k v"
  from Suc.prems have c: "counter b < restartInterval"
    by simp
  from diffKey_of_same [OF Suc.prems(1,2) c] have d: "diffKey_of b k = []" .
  from Suc.prems(5) have f: "length k + length v + length_used b \<le> tableSize"
    by (simp add: length_used_def)
  from Suc.prems(4,5) have l: "pos b + 8 + length (diffKey_of b k) + length v \<le> length (buf b)"
    by (simp add: d)
  from Add_fits [OF f] l have a: "Add b k v = Some (None, ?b1)"
    by simp
  have s: "baseKey ?b1 = k" "counter ?b1 + n \<le> restartInterval"
    "length (buf ?b1) = tableSize"
    "pos ?b1 + n * (8 + length v) + length k + 14 + 4 * length (restarts ?b1) \<le> tableSize"
    "pos ?b1 = pos b + 8 + length v" "counter ?b1 = counter b + 1" "restarts ?b1 = restarts b"
    using Suc.prems c l by (simp_all add: d after_Add_length_buf)
  from Suc.IH [OF s(1) Suc.prems(2) s(2,3,4)] obtain b' where
    "AddAll ?b1 (replicate n (k, v)) = Some b'" "pos b' = pos ?b1 + n * (8 + length v)"
    "counter b' = counter ?b1 + n" "restarts b' = restarts ?b1" "baseKey b' = k"
    "length (buf b') = tableSize"
    by blast
  then show ?case
    unfolding s(5,6,7) by (simp add: a)
qed

lemma AddAll_block_same_Suc:
  assumes "counter b = restartInterval \<or> counter b = 0 \<and> baseKey b = []"
    and "k \<noteq> []" and "length (buf b) = tableSize"
    and "Suc n \<le> restartInterval"
    and "pos b + Suc n * (8 + length v) + 2 * length k + 14 + 4 * (length (restarts b) + 1)
          \<le> tableSize"
  shows "\<exists>b'. AddAll b (replicate (Suc n) (k, v)) = Some b'
     \<and> pos b' = pos b + Suc n * (8 + length v) + length k
     \<and> counter b' = Suc n
     \<and> restarts b' = (if counter b = restartInterval then restarts b @ [of_nat (pos b)]
                       else restarts b)
     \<and> baseKey b' = k \<and> length (buf b') = tableSize"
proof -
  let ?b1 = "after_Add b k v"
  from assms(1) have d: "diffKey_of b k = k"
    by (auto simp add: diffKey_of_def)
  from assms(5) have f: "length k + length v + length_used b \<le> tableSize"
    by (simp add: length_used_def)
  from assms(3,5) have l: "pos b + 8 + length (diffKey_of b k) + length v \<le> length (buf b)"
    by (simp add: d)
  from Add_fits [OF f] l have a: "Add b k v = Some (None, ?b1)"
    by simp
  have s: "baseKey ?b1 = k" "counter ?b1 = 1" "length (buf ?b1) = tableSize"
    "pos ?b1 = pos b + 8 + length k + length v"
    "restarts ?b1 = (if counter b = restartInterval then restarts b @ [of_nat (pos b)]
                       else restarts b)"
    using assms(1,3) l by (auto simp add: d after_Add_length_buf restartInterval_def)
  have "counter ?b1 + n \<le> restartInterval"
    unfolding s(2) using assms(4) by simp
  moreover have "pos ?b1 + n * (8 + length v) + length k + 14 + 4 * length (restarts ?b1)
      \<le> tableSize"
    unfolding s(4,5) using assms(5) by simp
  ultimately obtain b' where
    "AddAll ?b1 (replicate n (k, v)) = Some b'" "pos b' = pos ?b1 + n * (8 + length v)"
    "counter b' = counter ?b1 + n" "restarts b' = restarts ?b1" "baseKey b' = k"
    "length (buf b') = tableSize"
    using AddAll_run [OF s(1) assms(2) _ s(3), of n v] by blast
  then show ?thesis
    unfolding s(2,4,5) by (simp add: a)
qed

lemma AddAll_block_same:
  assumes "counter b = restartInterval \<or> counter b = 0 \<and> baseKey b = []"
    and "k \<noteq> []" and "length (buf b) = tableSize"
    and "0 < n" and "n \<le> restartInterval"
    and "pos b + n * (8 + length v) + 2 * length k + 14 + 4 * (length (restarts b) + 1)
          \<le> tableSize"
  shows "\<exists>b'. AddAll b (replicate n (k, v)) = Some b'
     \<and> pos b' = pos b + n * (8 + length v) + length k
     \<and> counter b' = n
     \<and> restarts b' = (if counter b = restartInterval then restarts b @ [of_nat (pos b)]
                       else restarts b)
     \<and> baseKey b' = k \<and> length (buf b') = tableSize"
proof -
  from assms(4) obtain n' where n: "n = Suc n'"
    by (cases n) auto
  from AddAll_block_same_Suc [OF assms(1,2,3) assms(5,6) [unfolded n]] show ?thesis
    unfolding n .
qed

lemma AddAll_blocks_same:
  assumes "k \<noteq> []"
    and "Suc m * (100 * (8 + length v) + length k) + length k + 14 + 4 * Suc m \<le> tableSize"
  shows "\<exists>b. AddAll (Reset zeroBuilder) (replicate (100 * Suc m) (k, v)) = Some b
     \<and> pos b = Suc m * (100 * (8 + length v) + length k)
     \<and> counter b = 100 \<and> length (restarts b) = m \<and> baseKey b = k
     \<and> length (buf b) = tableSize"
  using assms(2)
proof (induction m)
  case 0
  let ?r = "Reset zeroBuilder"
  have r: "counter ?r = restartInterval \<or> counter ?r = 0 \<and> baseKey ?r = []"
    "length (buf ?r) = tableSize" "pos ?r = 0" "restarts ?r = []" "counter ?r = 0"
    by (simp_all add: Reset_def zeroBuilder_def tableSize_def)
  have "pos ?r + 100 * (8 + length v) + 2 * length k + 14 + 4 * (length (restarts ?r) + 1)
          \<le> tableSize"
    using 0 by (simp add: r)
  from AddAll_block_same [OF r(1) assms(1) r(2) _ _ this] show ?case
    by (auto simp add: r restartInterval_def)
next
  case (Suc m)
  then obtain b where b: "AddAll (Reset zeroBuilder) (replicate (100 * Suc m) (k, v)) = Some b"
    "pos b = Suc m * (100 * (8 + length v) + length k)"
    "counter b = 100" "length (restarts b) = m" "baseKey b = k" "length (buf b) = tableSize"
    by auto
  have c: "counter b = restartInterval \<or> counter b = 0 \<and> baseKey b = []"
    by (simp add: b restartInterval_def)
  have "pos b + 100 * (8 + length v) + 2 * length k + 14 + 4 * (length (restarts b) + 1)
          \<le> tableSize"
    using Suc.prems by (simp add: b)
  from AddAll_block_same [OF c assms(1) b(6) _ _ this] obtain b' where
    b': "AddAll b (replicate 100 (k, v)) = Some b'"
    "pos b' = pos b + 100 * (8 + length v) + length k" "counter b' = 100"
    "restarts b' = restarts b @ [of_nat (pos b)]" "baseKey b' = k" "length (buf b') = tableSize"
    by (auto simp add: restartInterval_def b)
  have "replicate (100 * Suc (Suc m)) (k, v)
      = replicate (100 * Suc m) (k, v) @ replicate 100 (k, v)"
    by (simp add: replicate_add [symmetric])
  with b b' show ?case
    by (simp add: AddAll_append)
qed


lemma Finish_aborts_one_large_record:
  "AddAll (Reset zeroBuilder) [([97], replicate (tableSize - 15) 0)]
     = Some (after_Add (Reset zeroBuilder) [97] (replicate (tableSize - 15) 0))
   \<and> Finish (after_Add (Reset zeroBuilder) [97] (replicate (tableSize - 15) 0)) = None
   \<and> buildTable [([97], replicate (tableSize - 15) 0)] = None"
proof -
  let ?b = "Reset zeroBuilder" and ?v = "replicate (tableSize - 15) (0 :: byte)"
  have r: "length (buf ?b) = tableSize" "pos ?b = 0" "restarts ?b = []" "counter ?b = 0"
    "baseKey ?b = []"
    by (simp_all add: Reset_def zeroBuilder_def tableSize_def)
  have d: "diffKey_of ?b [97] = [97]"
    by (simp add: diffKey_of_def r)
  have f: "length [97 :: byte] + length ?v + length_used ?b \<le> tableSize"
    by (simp add: length_used_def r tableSize_def)
  from Add_fits [OF f] have a: "Add ?b [97] ?v = Some (None, after_Add ?b [97] ?v)"
    by (simp add: d r tableSize_def)
  have F: "Finish (after_Add ?b [97] ?v) = None"
    by (rule Finish_full_abort) (simp_all add: length_used_def d r restartInterval_def tableSize_def)
  from a F show ?thesis
    by (simp add: buildTable_def)
qed

text \<open>
  Claim C2, at a table that successful \<open>Add\<close> calls have filled to within 35 bytes of
  \<open>tableSize\<close>: 799 records with key \<open>a\<close> and a value of 65528 bytes and one more with a value
  of 65485 bytes. Every \<open>Add\<close> returns \<open>nil\<close>. In \<open>Finish\<close> the terminator no longer fits and its
  error is dropped; the restart index of 8 offsets and the count needs 36 bytes, so the
  assertion \<open>b.pos <= newpos\<close> fails and \<open>Finish\<close> returns no buffer at all. The same happens
  after a single record that fills the table (lemma \<open>Finish_aborts_one_large_record\<close>). When
  \<open>Finish\<close> does return, lemma \<open>Finish_length\<close> gives the length of its result.
\<close>

theorem Finish_aborts_on_full_table:
  "\<exists>b. AddAll (Reset zeroBuilder)
          (replicate 799 ([97], replicate 65528 0) @ [([97], replicate 65485 0)]) = Some b
      \<and> pos b = tableSize - 35 \<and> length (restarts b) = 7 \<and> counter b = 100
      \<and> Add b [] [] = Some (Some ExceedsTableSize, b)
      \<and> Finish b = None"
proof -
  let ?k = "[97] :: bytes" and ?v = "replicate 65528 (0 :: byte)"
    and ?v2 = "replicate 65485 (0 :: byte)"
  have k: "?k \<noteq> []"
    by simp
  have "Suc 6 * (100 * (8 + length ?v) + length ?k) + length ?k + 14 + 4 * Suc 6 \<le> tableSize"
    by (simp add: tableSize_def)
  from AddAll_blocks_same [OF k this] obtain b7 where
    b7: "AddAll (Reset zeroBuilder) (replicate 700 (?k, ?v)) = Some b7"
    "pos b7 = 45875207" "counter b7 = 100" "length (restarts b7) = 6" "baseKey b7 = ?k"
    "length (buf b7) = tableSize"
    by auto
  have c7: "counter b7 = restartInterval \<or> counter b7 = 0 \<and> baseKey b7 = []"
    by (simp add: b7 restartInterval_def)
  have "(0 :: nat) < 99" "99 \<le> restartInterval"
    by (simp_all add: restartInterval_def)
  moreover have "pos b7 + 99 * (8 + length ?v) + 2 * length ?k + 14
      + 4 * (length (restarts b7) + 1) \<le> tableSize"
    by (simp add: b7 tableSize_def)
  ultimately obtain b8 where
    b8: "AddAll b7 (replicate 99 (?k, ?v)) = Some b8"
    "pos b8 = 52363272" "counter b8 = 99" "length (restarts b8) = 7" "baseKey b8 = ?k"
    "length (buf b8) = tableSize"
    using AddAll_block_same [OF c7 k b7(6), of 99 ?v] by (auto simp add: b7 restartInterval_def)
  let ?b = "after_Add b8 ?k ?v2"
  have d: "diffKey_of b8 ?k = []"
    by (rule diffKey_of_same) (simp_all add: b8 restartInterval_def)
  have "length ?k + length ?v2 + length_used b8 \<le> tableSize"
    by (simp add: length_used_def b8 tableSize_def)
  from Add_fits [OF this] have a: "Add b8 ?k ?v2 = Some (None, ?b)"
    by (simp add: d b8 tableSize_def)
  have sb: "pos ?b = 52428765" "length (restarts ?b) = 7" "counter ?b = 100"
    by (simp_all add: d b8 restartInterval_def)
  have "replicate 799 (?k, ?v) = replicate 700 (?k, ?v) @ replicate 99 (?k, ?v)"
    by (simp add: replicate_add [symmetric])
  then have A: "AddAll (Reset zeroBuilder) (replicate 799 (?k, ?v) @ [(?k, ?v2)]) = Some ?b"
    by (simp add: AddAll_append b7 b8 a)
  have full: "tableSize < length ([] :: bytes) + length ([] :: bytes) + length_used ?b"
    unfolding length_used_def sb by (simp add: tableSize_def)
  have "tableSize < length_used ?b" "tableSize < pos ?b + 4 * length (restarts ?b) + 8"
    unfolding length_used_def sb by (simp_all add: tableSize_def)
  then have F: "Finish ?b = None"
    by (rule Finish_full_abort)
  have "pos ?b = tableSize - 35"
    unfolding sb by (simp add: tableSize_def)
  with A sb(2,3) F Add_full [OF full] show ?thesis
    by blast
qed

text \<open>
  Claim C6, as the code has it: 250 records that leave room in the table (each costs at most
  8 bytes of header plus key and value) are all added, and \<open>Finish\<close> returns a buffer of
  \<open>tableSize\<close> bytes whose restart index holds the offsets where records 101 and 201 start and
  the end-of-stream offset after the terminator, followed by the count 3. The first block has
  no restart entry. Every \<open>Add\<close> that finds \<open>restartInterval\<close> records in the current block
  appends its offset to the restarts, starts the count again and stores the full key as the new
  base key; any other \<open>Add\<close> leaves the restarts alone.
\<close>

theorem restart_index_250_records:
  assumes "length kvs = 250"
    and "(\<Sum>(k, v)\<leftarrow>kvs. 8 + length k + length v) + 1014 \<le> tableSize"
    and "length (buf b0) \<le> tableSize"
  shows "(\<exists>b100 b200 b out b'.
      AddAll (Reset b0) (take 100 kvs) = Some b100
    \<and> AddAll (Reset b0) (take 200 kvs) = Some b200
    \<and> AddAll (Reset b0) kvs = Some b
    \<and> Finish b = Some (out, b')
    \<and> restarts b' = [of_nat (pos b100), of_nat (pos b200), of_nat (pos b + 8)]
    \<and> length out = tableSize
    \<and> drop (tableSize - 16) out
         = PutUint32 (of_nat (pos b100)) @ PutUint32 (of_nat (pos b200))
             @ PutUint32 (of_nat (pos b + 8)) @ PutUint32 3
    \<and> trailingCount out = 3)
  \<and> (\<forall>b k v b1. Add b k v = Some (None, b1) \<longrightarrow>
        (if restartInterval \<le> counter b
         then restarts b1 = restarts b @ [of_nat (pos b)] \<and> counter b1 = 1
              \<and> baseKey b1 = k \<and> diffKey_of b k = k
         else restarts b1 = restarts b \<and> counter b1 = counter b + 1))"
proof -
  have "restarts b1 = restarts b @ [of_nat (pos b)] \<and> counter b1 = 1
              \<and> baseKey b1 = k \<and> diffKey_of b k = k"
    if "Add b k v = Some (None, b1)" and "restartInterval \<le> counter b" for b k v b1
    using Add_nil_D(1) [OF that(1)] that(2) by (simp add: diffKey_of_def)
  moreover have "restarts b1 = restarts b \<and> counter b1 = counter b + 1"
    if "Add b k v = Some (None, b1)" and "\<not> restartInterval \<le> counter b" for b k v b1
    using Add_nil_D(1) [OF that(1)] that(2) by simp
  ultimately show ?thesis
    using table_250 [OF assms] by presburger
qed

theorem restart_index_250_records_witness:
  "length (replicate 250 ([98 :: byte], [1 :: byte])) = 250
   \<and> (\<Sum>(k, v)\<leftarrow>replicate 250 ([98 :: byte], [1 :: byte]). 8 + length k + length v) + 1014
       \<le> tableSize
   \<and> length (buf zeroBuilder) \<le> tableSize
   \<and> (\<exists>b out b'. AddAll (Reset zeroBuilder) (replicate 250 ([98], [1])) = Some b
        \<and> Finish b = Some (out, b') \<and> length (restarts b') = 3
        \<and> length out = tableSize \<and> trailingCount out = 3)"
proof -
  let ?kvs = "replicate 250 ([98 :: byte], [1 :: byte])"
  have h1: "length ?kvs = 250"
    by simp
  have h2: "(\<Sum>(k, v)\<leftarrow>?kvs. 8 + length k + length v) + 1014 \<le> tableSize"
    by (simp add: sum_list_replicate tableSize_def)
  have h3: "length (buf zeroBuilder) \<le> tableSize"
    by (simp add: zeroBuilder_def)
  from restart_index_250_records [OF h1 h2 h3]
  obtain b out b' where "AddAll (Reset zeroBuilder) ?kvs = Some b"
    "Finish b = Some (out, b')" "length (restarts b') = 3"
    "length out = tableSize" "trailingCount out = 3"
    by auto
  with h1 h2 h3 show ?thesis
    by blast
qed

theorem trailing_count_250_counterexample:
  "map_option trailingCount (buildTable (replicate 250 ([97], []))) = Some 3
   \<and> map_option trailingCount (buildTable (replicate 250 ([97], []))) \<noteq> Some 4"
proof -
  let ?kvs = "replicate 250 ([97 :: byte], [] :: bytes)"
  have h1: "length ?kvs = 250"
    by simp
  have h2: "(\<Sum>(k, v)\<leftarrow>?kvs. 8 + length k + length v) + 1014 \<le> tableSize"
    by (simp add: sum_list_replicate tableSize_def)
  have h3: "length (buf zeroBuilder) \<le> tableSize"
    by (simp add: zeroBuilder_def)
  from table_250 [OF h1 h2 h3]
  obtain b out b' where "AddAll (Reset zeroBuilder) ?kvs = Some b"
    "Finish b = Some (out, b')" "trailingCount out = 3"
    by auto
  then show ?thesis
    by (simp add: buildTable_def)
qed

section \<open>Lemmas and theorems: map entries and map files\<close>

lemma Posting_Size_Marshal: "Posting_Size enc p = length (Posting_Marshal enc p)"
  by (simp add: Posting_Marshal_def Posting_Size_def split: option.splits)

lemma marshalMapEntry_exact:
  assumes "length dst = mapEntrySize enc key p"
  shows "marshalMapEntry enc dst uid key p =
     Some (PutUint64 (case p of Some q \<Rightarrow> Uid q | None \<Rightarrow> uid)
           @ PutUint32 (of_nat (length key)) @ PutUint32 (of_nat (Posting_Size enc p))
           @ key @ Posting_Marshal enc p)"
  using assms
  by (simp add: marshalMapEntry_def mapEntrySize_def copy_at_def Let_def Posting_Size_Marshal)

lemma MapEntry_Uid_layout [simp]:
  "MapEntry_Uid (PutUint64 u @ rest) = Some u"
  by (simp add: MapEntry_Uid_def)

lemma unat_16_plus:
  assumes "16 + n < 2 ^ 32"
  shows "unat (16 + (of_nat n :: 32 word)) = 16 + n"
proof -
  have "unat (of_nat (16 + n) :: 32 word) = 16 + n"
    using assms by (simp add: unat_of_nat del: of_nat_add)
  then show ?thesis by simp
qed

lemma MapEntry_Key_layout:
  assumes "16 + length key < 2 ^ 32"
  shows "MapEntry_Key (PutUint64 u @ PutUint32 (of_nat (length key)) @ PutUint32 c @ key @ rest)
     = Some key"
  using assms by (simp add: MapEntry_Key_def Let_def unat_16_plus)

lemma MapEntry_Plist_layout:
  assumes "16 + length key + length pl < 2 ^ 32"
  shows "MapEntry_Plist (PutUint64 u @ PutUint32 (of_nat (length key))
       @ PutUint32 (of_nat (length pl)) @ key @ pl) = Some pl"
proof -
  have k: "unat (16 + (of_nat (length key) :: 32 word)) = 16 + length key"
    using assms by (simp add: unat_16_plus)
  have "unat (of_nat (16 + length key + length pl) :: 32 word) = 16 + length key + length pl"
    using assms by (simp add: unat_of_nat del: of_nat_add)
  then have h: "unat (16 + (of_nat (length key) :: 32 word) + of_nat (length pl))
      = 16 + length key + length pl"
    by simp
  show ?thesis
    by (simp add: MapEntry_Plist_def Let_def k h)
qed


text \<open>
  Claim C3, as the code has it. For a key and posting that fit the 32-bit length fields and a
  destination of \<open>mapEntrySize\<close> bytes, \<open>marshalMapEntry\<close> fills exactly those bytes with
  \<open>uid(8) || klen(4) || plen(4) || key || posting\<close>, and reading back gives the key, the posting
  bytes and the uid of the posting when there is one, the uid argument only when there is none.
\<close>

theorem map_entry_round_trip:
  assumes "16 + length key + Posting_Size enc p < 2 ^ 32"
    and "length dst = mapEntrySize enc key p"
  shows "\<exists>me. marshalMapEntry enc dst uid key p = Some me
     \<and> me = PutUint64 (case p of Some q \<Rightarrow> Uid q | None \<Rightarrow> uid)
             @ PutUint32 (of_nat (length key)) @ PutUint32 (of_nat (Posting_Size enc p))
             @ key @ Posting_Marshal enc p
     \<and> MapEntry_Size me = mapEntrySize enc key p
     \<and> mapEntrySize enc key p = 8 + 4 + 4 + length key + Posting_Size enc p
     \<and> MapEntry_Uid me = Some (case p of Some q \<Rightarrow> Uid q | None \<Rightarrow> uid)
     \<and> MapEntry_Key me = Some key
     \<and> MapEntry_Plist me = Some (Posting_Marshal enc p)"
proof -
  from assms(1) have k: "16 + length key < 2 ^ 32"
    and pl: "16 + length key + length (Posting_Marshal enc p) < 2 ^ 32"
    by (simp_all add: Posting_Size_Marshal)
  show ?thesis
    unfolding marshalMapEntry_exact [OF assms(2)]
    by (simp add: MapEntry_Key_layout [OF k] MapEntry_Size_def)
      (simp add: Posting_Size_Marshal MapEntry_Plist_layout [OF pl] mapEntrySize_def)
qed

theorem map_entry_round_trip_witness:
  "16 + length [1 :: byte, 2]
      + Posting_Size Value (Some \<lparr> Uid = 2, Value = [7], PostingType = Posting_VALUE \<rparr>) < 2 ^ 32
   \<and> length (replicate 19 (0 :: byte))
       = mapEntrySize Value [1, 2] (Some \<lparr> Uid = 2, Value = [7], PostingType = Posting_VALUE \<rparr>)
   \<and> (\<exists>me. marshalMapEntry Value (replicate 19 0) 5 [1, 2]
              (Some \<lparr> Uid = 2, Value = [7], PostingType = Posting_VALUE \<rparr>) = Some me
        \<and> MapEntry_Size me = 19 \<and> MapEntry_Uid me = Some 2 \<and> MapEntry_Key me = Some [1, 2]
        \<and> MapEntry_Plist me = Some [7])"
proof -
  let ?p = "Some \<lparr> Uid = 2, Value = [7], PostingType = Posting_VALUE \<rparr>"
  have h1: "16 + length [1 :: byte, 2] + Posting_Size Value ?p < 2 ^ 32"
    by (simp add: Posting_Size_def)
  have h2: "length (replicate 19 (0 :: byte)) = mapEntrySize Value [1, 2] ?p"
    by (simp add: mapEntrySize_def Posting_Size_def)
  from map_entry_round_trip [OF h1 h2, of 5] h1 h2 show ?thesis
    by (simp add: mapEntrySize_def Posting_Size_def Posting_Marshal_def)
qed

theorem map_entry_uid_counterexample:
  "Option.bind (marshalMapEntry Value (replicate 17 0) 1 []
       (Some \<lparr> Uid = 2, Value = [7], PostingType = Posting_VALUE \<rparr>)) MapEntry_Uid = Some 2
   \<and> Option.bind (marshalMapEntry Value (replicate 17 0) 1 []
       (Some \<lparr> Uid = 2, Value = [7], PostingType = Posting_VALUE \<rparr>)) MapEntry_Uid \<noteq> Some 1"
proof -
  let ?p = "Some \<lparr> Uid = 2, Value = [7], PostingType = Posting_VALUE \<rparr>"
  have "length (replicate 17 (0 :: byte)) = mapEntrySize Value [] ?p"
    by (simp add: mapEntrySize_def Posting_Size_def)
  from marshalMapEntry_exact [OF this, of 1] show ?thesis
    by simp
qed

lemma addMapEntry_round_trip:
  assumes "16 + length key + length (enc q) < 2 ^ 32"
  shows "\<exists>me. addMapEntry enc key q cbuf = Some (cbuf @ [me])
     \<and> MapEntry_Uid me = Some (Uid q) \<and> MapEntry_Key me = Some key
     \<and> MapEntry_Plist me = Some (if PostingType q = Posting_REF then [] else enc q)"
proof -
  let ?p = "if PostingType q \<noteq> Posting_REF then Some q else None"
  have 1: "16 + length key + Posting_Size enc ?p < 2 ^ 32"
    using assms by (simp add: Posting_Size_def)
  have 2: "length (replicate (mapEntrySize enc key ?p) (0 :: byte)) = mapEntrySize enc key ?p"
    by simp
  from map_entry_round_trip [OF 1 2, of "Uid q"]
  show ?thesis
    by (auto simp add: addMapEntry_def Let_def Posting_Marshal_def)
qed


lemma bytes_Compare_less [simp]: "(bytes_Compare a b < 0) = (a < b)"
  by (induction a b rule: bytes_Compare.induct) auto

lemma bytes_Compare_eq [simp]: "(bytes_Compare a b = 0) = (a = b)"
  by (induction a b rule: bytes_Compare.induct) auto

lemma less_MapEntry_eq:
  assumes "MapEntry_Key lhs = Some kl" "MapEntry_Key rhs = Some kr"
    and "MapEntry_Uid lhs = Some ul" "MapEntry_Uid rhs = Some ur"
  shows "less_MapEntry lhs rhs = Some (kl < kr \<or> kl = kr \<and> ul < ur)"
  using assms by (auto simp add: less_MapEntry_def Let_def)

lemma Key_imp_Uid: "MapEntry_Key me \<noteq> None \<Longrightarrow> MapEntry_Uid me \<noteq> None"
  by (auto simp add: MapEntry_Key_def MapEntry_Uid_def split: if_splits)

lemma less_MapEntry_key_uid:
  assumes "MapEntry_Key lhs \<noteq> None" "MapEntry_Key rhs \<noteq> None"
  shows "less_MapEntry lhs rhs =
     Some ((the (MapEntry_Key lhs), the (MapEntry_Uid lhs))
            < (the (MapEntry_Key rhs), the (MapEntry_Uid rhs)))"
proof -
  from assms Key_imp_Uid obtain kl kr ul ur where
    "MapEntry_Key lhs = Some kl" "MapEntry_Key rhs = Some kr"
    "MapEntry_Uid lhs = Some ul" "MapEntry_Uid rhs = Some ur"
    by (metis not_None_eq)
  then show ?thesis
    by (auto simp add: less_MapEntry_eq less_prod_def)
qed

lemma insert_sorted_ok:
  fixes f :: "'a \<Rightarrow> 'b::linorder"
  assumes "\<forall>y\<in>set ys. lt x y = Some (f x < f y)" and "sorted (map f ys)"
  shows "\<exists>zs. insert_sorted lt x ys = Some zs \<and> mset zs = add_mset x (mset ys)
     \<and> sorted (map f zs)"
  using assms
proof (induction ys)
  case Nil
  then show ?case by simp
next
  case (Cons y ys)
  show ?case
  proof (cases "f x < f y")
    case True
    with Cons.prems show ?thesis
      by (auto simp add: less_imp_le order.strict_trans2 [THEN less_imp_le])
  next
    case False
    from Cons.prems have "\<forall>y\<in>set ys. lt x y = Some (f x < f y)" "sorted (map f ys)"
      by simp_all
    from Cons.IH [OF this] obtain zs where zs: "insert_sorted lt x ys = Some zs"
      "mset zs = add_mset x (mset ys)" "sorted (map f zs)"
      by blast
    from zs(2) have "set zs = insert x (set ys)"
      by (metis set_mset_add_mset_insert set_mset_mset)
    with False Cons.prems zs show ?thesis
      by auto
  qed
qed

lemma SortSlice_ok:
  fixes f :: "'a \<Rightarrow> 'b::linorder"
  assumes "\<forall>x\<in>set xs. \<forall>y\<in>set xs. lt x y = Some (f x < f y)"
  shows "\<exists>zs. SortSlice lt xs = Some zs \<and> mset zs = mset xs \<and> sorted (map f zs)"
  using assms
proof (induction xs)
  case Nil
  then show ?case by simp
next
  case (Cons x xs)
  then obtain ys where ys: "SortSlice lt xs = Some ys" "mset ys = mset xs" "sorted (map f ys)"
    by auto
  from ys(2) have "set ys = set xs"
    by (metis set_mset_mset)
  with Cons.prems have "\<forall>y\<in>set ys. lt x y = Some (f x < f y)"
    by simp
  from insert_sorted_ok [of ys lt x f, OF this ys(3)] ys show ?case
    by auto
qed


lemma sorted_le_last:
  fixes pks :: "'b::linorder list"
  assumes "sorted pks" and "p \<in> set pks"
  shows "p \<le> last pks"
  using assms by (induction pks) auto

lemma strict_sorted_le_last:
  fixes pks :: "'b::linorder list"
  assumes "sorted_wrt (<) pks" and "p \<in> set pks"
  shows "p \<le> last pks"
  using strict_sorted_imp_sorted [OF assms(1)] assms(2) by (rule sorted_le_last)

lemma partitionKeys_loop_ok:
  assumes "\<forall>me\<in>set rest. MapEntry_Key me \<noteq> None"
    and "sorted (map (\<lambda>me. the (MapEntry_Key me)) rest)"
    and "sorted_wrt (<) pks"
    and "pks \<noteq> [] \<longrightarrow> (\<forall>me\<in>set rest. last pks \<le> the (MapEntry_Key me))"
  shows "\<exists>out. partitionKeys_loop pbs rest pks bs = Some out \<and> sorted_wrt (<) out
     \<and> set out \<subseteq> set pks \<union> (\<lambda>me. the (MapEntry_Key me)) ` set rest"
  using assms
proof (induction rest arbitrary: pks bs)
  case Nil
  then show ?case by simp
next
  case (Cons me rest)
  from Cons.prems(1) obtain k where k: "MapEntry_Key me = Some k"
    by auto
  have r1: "\<forall>me\<in>set rest. MapEntry_Key me \<noteq> None"
    and r2: "sorted (map (\<lambda>me. the (MapEntry_Key me)) rest)"
    and r3: "\<forall>m\<in>set rest. k \<le> the (MapEntry_Key m)"
    using Cons.prems(1,2) k by auto
  have r4: "pks \<noteq> [] \<longrightarrow> (\<forall>me\<in>set rest. last pks \<le> the (MapEntry_Key me))"
    using Cons.prems(4) by simp
  let ?bs1 = "bs + int (4 + length me)"
  consider (skip) "?bs1 < pbs \<or> (pks \<noteq> [] \<and> k = last pks)"
    | (take) "\<not> ?bs1 < pbs" "\<not> (pks \<noteq> [] \<and> k = last pks)"
    by blast
  then show ?case
  proof cases
    case skip
    from Cons.IH [OF r1 r2 Cons.prems(3) r4, of ?bs1] obtain out where
      "partitionKeys_loop pbs rest pks ?bs1 = Some out" "sorted_wrt (<) out"
      "set out \<subseteq> set pks \<union> (\<lambda>me. the (MapEntry_Key me)) ` set rest"
      by blast
    with skip k show ?thesis
      by (auto simp add: Let_def)
  next
    case take
    have lt: "\<forall>p\<in>set pks. p < k"
    proof
      fix p assume p: "p \<in> set pks"
      then have ne: "pks \<noteq> []" by auto
      from strict_sorted_le_last [OF Cons.prems(3) p] have "p \<le> last pks" .
      moreover from Cons.prems(4) ne k have "last pks \<le> k" by simp
      moreover from take(2) ne have "k \<noteq> last pks" by simp
      ultimately show "p < k" by simp
    qed
    with Cons.prems(3) have s: "sorted_wrt (<) (pks @ [k])"
      by (simp add: sorted_wrt_append)
    have l: "pks @ [k] \<noteq> [] \<longrightarrow> (\<forall>me\<in>set rest. last (pks @ [k]) \<le> the (MapEntry_Key me))"
      using r3 by simp
    from Cons.IH [OF r1 r2 s l, of 0] obtain out where
      "partitionKeys_loop pbs rest (pks @ [k]) 0 = Some out" "sorted_wrt (<) out"
      "set out \<subseteq> set (pks @ [k]) \<union> (\<lambda>me. the (MapEntry_Key me)) ` set rest"
      by blast
    with take k show ?thesis
      by (auto simp add: Let_def)
  qed
qed

lemma writeMapEntriesToFile_ok:
  assumes "\<forall>me\<in>set cbuf. MapEntry_Key me \<noteq> None"
  shows "\<exists>f. writeMapEntriesToFile pbs cbuf = Some f \<and> mset (file_records f) = mset cbuf
     \<and> sorted (map (\<lambda>me. (the (MapEntry_Key me), the (MapEntry_Uid me))) (file_records f))
     \<and> sorted_wrt (<) (PartitionKeys f)
     \<and> set (PartitionKeys f) \<subseteq> (\<lambda>me. the (MapEntry_Key me)) ` set (file_records f)"
proof -
  let ?f = "\<lambda>me. (the (MapEntry_Key me), the (MapEntry_Uid me))"
  from assms have "\<forall>x\<in>set cbuf. \<forall>y\<in>set cbuf. less_MapEntry x y = Some (?f x < ?f y)"
    by (simp add: less_MapEntry_key_uid)
  from SortSlice_ok [of cbuf less_MapEntry ?f, OF this] obtain zs where
    zs: "SortSlice less_MapEntry cbuf = Some zs" "mset zs = mset cbuf" "sorted (map ?f zs)"
    by blast
  from zs(2) have set: "set zs = set cbuf"
    by (metis set_mset_mset)
  with assms have wf: "\<forall>me\<in>set zs. MapEntry_Key me \<noteq> None"
    by simp
  from zs(3) have "sorted_wrt (\<lambda>a b. ?f a \<le> ?f b) zs"
    by (simp add: sorted_map)
  then have "sorted_wrt (\<lambda>a b. the (MapEntry_Key a) \<le> the (MapEntry_Key b)) zs"
    by (rule sorted_wrt_mono_rel [rotated]) (auto simp add: less_eq_prod_def)
  then have sk: "sorted (map (\<lambda>me. the (MapEntry_Key me)) zs)"
    by (simp add: sorted_map)
  from partitionKeys_loop_ok [OF wf sk, of "[]" pbs 0] obtain out where
    "partitionKeys_loop pbs zs [] 0 = Some out" "sorted_wrt (<) out"
    "set out \<subseteq> (\<lambda>me. the (MapEntry_Key me)) ` set zs"
    by auto
  with zs show ?thesis
    by (simp add: writeMapEntriesToFile_def)
qed


text \<open>
  Claim C4. For a shard buffer of well-formed entries, the file is written, its records are the
  buffer sorted by \<open>less\<close> (a permutation of the buffer, ascending by key and then by uid), and
  \<open>less\<close> holds exactly when the left key is lexicographically smaller, or the keys are equal and
  the left uid is smaller.
\<close>

theorem map_file_sorted:
  assumes "\<forall>me\<in>set cbuf. MapEntry_Key me \<noteq> None"
  shows "(\<exists>f. writeMapEntriesToFile pbs cbuf = Some f
       \<and> SortSlice less_MapEntry cbuf = Some (file_records f)
       \<and> mset (file_records f) = mset cbuf
       \<and> sorted_wrt (\<lambda>a b. \<exists>ka kb ua ub.
             MapEntry_Key a = Some ka \<and> MapEntry_Key b = Some kb
           \<and> MapEntry_Uid a = Some ua \<and> MapEntry_Uid b = Some ub
           \<and> (ka < kb \<or> ka = kb \<and> ua \<le> ub)) (file_records f)
       \<and> sorted_wrt (\<lambda>a b. less_MapEntry b a = Some False) (file_records f))
   \<and> (\<forall>lhs rhs kl kr ul ur.
         MapEntry_Key lhs = Some kl \<and> MapEntry_Key rhs = Some kr
       \<and> MapEntry_Uid lhs = Some ul \<and> MapEntry_Uid rhs = Some ur
       \<longrightarrow> less_MapEntry lhs rhs = Some (kl < kr \<or> kl = kr \<and> ul < ur))"
proof -
  let ?f = "\<lambda>me. (the (MapEntry_Key me), the (MapEntry_Uid me))"
  from writeMapEntriesToFile_ok [OF assms, of pbs] obtain f where
    f: "writeMapEntriesToFile pbs cbuf = Some f" "mset (file_records f) = mset cbuf"
    "sorted (map ?f (file_records f))"
    by blast
  from f(2) have "set (file_records f) = set cbuf"
    by (metis set_mset_mset)
  with assms have wf: "\<And>me. me \<in> set (file_records f) \<Longrightarrow> MapEntry_Key me \<noteq> None"
    by simp
  from f(3) have s: "sorted_wrt (\<lambda>a b. ?f a \<le> ?f b) (file_records f)"
    by (simp add: sorted_map)
  have s1: "sorted_wrt (\<lambda>a b. \<exists>ka kb ua ub.
             MapEntry_Key a = Some ka \<and> MapEntry_Key b = Some kb
           \<and> MapEntry_Uid a = Some ua \<and> MapEntry_Uid b = Some ub
           \<and> (ka < kb \<or> ka = kb \<and> ua \<le> ub)) (file_records f)"
  proof (rule sorted_wrt_mono_rel [OF _ s])
    fix a b assume a: "a \<in> set (file_records f)" and b: "b \<in> set (file_records f)"
      and le: "?f a \<le> ?f b"
    from wf [OF a] wf [OF b] Key_imp_Uid obtain ka kb ua ub where
      e: "MapEntry_Key a = Some ka" "MapEntry_Key b = Some kb"
      "MapEntry_Uid a = Some ua" "MapEntry_Uid b = Some ub"
      by (metis not_None_eq)
    with le have "ka < kb \<or> ka = kb \<and> ua \<le> ub"
      by (auto simp add: less_eq_prod_def)
    with e show "\<exists>ka kb ua ub.
             MapEntry_Key a = Some ka \<and> MapEntry_Key b = Some kb
           \<and> MapEntry_Uid a = Some ua \<and> MapEntry_Uid b = Some ub
           \<and> (ka < kb \<or> ka = kb \<and> ua \<le> ub)"
      by blast
  qed
  have s2: "sorted_wrt (\<lambda>a b. less_MapEntry b a = Some False) (file_records f)"
  proof (rule sorted_wrt_mono_rel [OF _ s])
    fix a b assume a: "a \<in> set (file_records f)" and b: "b \<in> set (file_records f)"
      and le: "?f a \<le> ?f b"
    from le have "\<not> ?f b < ?f a"
      by (simp only: not_less)
    then show "less_MapEntry b a = Some False"
      by (simp only: less_MapEntry_key_uid [OF wf [OF b] wf [OF a]])
  qed
  from f(1) have "SortSlice less_MapEntry cbuf = Some (file_records f)"
    by (auto simp add: writeMapEntriesToFile_def split: option.splits)
  with f s1 s2 show ?thesis
    by (auto simp add: less_MapEntry_eq)
qed

theorem map_file_sorted_witness:
  "MapEntry_Key [0, 0, 0, 0, 0, 0, 0, 1, 0, 0, 0, 1, 0, 0, 0, 0, 98] = Some [98]
   \<and> MapEntry_Key [0, 0, 0, 0, 0, 0, 0, 2, 0, 0, 0, 1, 0, 0, 0, 0, 97] = Some [97]
   \<and> (\<exists>f. writeMapEntriesToFile 0
              [[0, 0, 0, 0, 0, 0, 0, 1, 0, 0, 0, 1, 0, 0, 0, 0, 98],
               [0, 0, 0, 0, 0, 0, 0, 2, 0, 0, 0, 1, 0, 0, 0, 0, 97]] = Some f
        \<and> file_records f = [[0, 0, 0, 0, 0, 0, 0, 2, 0, 0, 0, 1, 0, 0, 0, 0, 97],
                            [0, 0, 0, 0, 0, 0, 0, 1, 0, 0, 0, 1, 0, 0, 0, 0, 98]])"
proof -
  let ?e1 = "[0, 0, 0, 0, 0, 0, 0, 1, 0, 0, 0, 1, 0, 0, 0, 0, 98] :: bytes"
  let ?e2 = "[0, 0, 0, 0, 0, 0, 0, 2, 0, 0, 0, 1, 0, 0, 0, 0, 97] :: bytes"
  have k: "MapEntry_Key ?e1 = Some [98]" "MapEntry_Key ?e2 = Some [97]"
    by (simp_all add: MapEntry_Key_def Uint32_def Let_def)
  then have h: "\<forall>me\<in>set [?e1, ?e2]. MapEntry_Key me \<noteq> None"
    by simp
  have l: "less_MapEntry ?e1 ?e2 = Some False"
    by (simp add: less_MapEntry_def k)
  from map_file_sorted [OF h, of 0] obtain f where
    "writeMapEntriesToFile 0 [?e1, ?e2] = Some f"
    "SortSlice less_MapEntry [?e1, ?e2] = Some (file_records f)"
    by blast
  with k show ?thesis
    by (simp add: l)
qed








section \<open>Lemmas and theorems: edges, postings and the count index\<close>

lemma hexval_hexdigit: "d < 16 \<Longrightarrow> hexval (hexdigit d) = Some d"
proof -
  assume "d < 16"
  then have "d = 0 \<or> d = 1 \<or> d = 2 \<or> d = 3 \<or> d = 4 \<or> d = 5 \<or> d = 6 \<or> d = 7 \<or> d = 8
      \<or> d = 9 \<or> d = 10 \<or> d = 11 \<or> d = 12 \<or> d = 13 \<or> d = 14 \<or> d = 15"
    by arith
  then show ?thesis
    by (elim disjE) (simp_all add: hexdigit_def hexval_def)
qed

lemma ParseUint16_loop_append:
  "ParseUint16_loop (xs @ ys) acc =
     (case ParseUint16_loop xs acc of None \<Rightarrow> None | Some a \<Rightarrow> ParseUint16_loop ys a)"
  by (induction xs arbitrary: acc) (auto split: option.splits)

lemma ParseUint16_loop_FormatUint16: "ParseUint16_loop (FormatUint16 n) 0 = Some n"
proof (induction n rule: FormatUint16.induct)
  case (1 n)
  show ?case
  proof (cases "n < 16")
    case True
    then show ?thesis
      by (subst FormatUint16.simps) (simp add: hexval_hexdigit)
  next
    case False
    with 1 have "ParseUint16_loop (FormatUint16 (n div 16)) 0 = Some (n div 16)"
      by simp
    with False show ?thesis
      by (subst FormatUint16.simps) (simp add: ParseUint16_loop_append hexval_hexdigit)
  qed
qed

lemma FormatUint16_not_Nil: "FormatUint16 n \<noteq> []"
  by (subst FormatUint16.simps) simp

lemma FromHex_ToHexString: "FromHex (ToHexString u) = Some u"
proof -
  have "unat u < 2 ^ 64"
    using unsigned_less [of u] by simp
  then show ?thesis
    by (simp add: FromHex_def ToHexString_def strings_HasPrefix_def ParseUint16_def
        FormatUint16_not_Nil ParseUint16_loop_FormatUint16)
qed

lemma MaxUint64: "(- 1 :: 64 word) = 18446744073709551615"
  by simp

lemma SplitN2_hd_dot: "CHR ''.'' \<notin> set T \<Longrightarrow> hd (strings_SplitN2 (T @ ''.'' @ l) CHR ''.'') = T"
  by (auto simp add: strings_SplitN2_def takeWhile_tail)

lemma SplitN2_hd_nodot: "CHR ''.'' \<notin> set r \<Longrightarrow> hd (strings_SplitN2 r CHR ''.'') = r"
  by (simp add: strings_SplitN2_def)

text \<open>
  Claim C7, as the code has it. The predicate of the edge that keys and schema lookups use is
  \<open>typ + "." + predicate\<close> under the namespace, for every subject: \<open>typ\<close> is the text between
  \<open>_:\<close> and the first dot of a blank-node subject (all of the rest when it has no dot), and it
  is empty for a subject that is no blank node, whose predicate so begins with a bare dot.
\<close>

theorem processNQuad_predicate:
  "(\<forall>T l. Subject nq = ''_:'' @ T @ ''.'' @ l \<and> CHR ''.'' \<notin> set T \<longrightarrow>
        processNQuad_Predicate nq = T @ ''.'' @ Predicate nq)
   \<and> (\<forall>r. Subject nq = ''_:'' @ r \<and> CHR ''.'' \<notin> set r \<longrightarrow>
        processNQuad_Predicate nq = r @ ''.'' @ Predicate nq)
   \<and> (\<not> strings_HasPrefix (Subject nq) ''_:'' \<longrightarrow>
        processNQuad_Predicate nq = ''.'' @ Predicate nq)
   \<and> (\<forall>de xids'. processNQuad_de optNamespace uid NamespaceAttr nq xids = Some (de, xids') \<longrightarrow>
        Predicate de = NamespaceAttr (Namespace de) (processNQuad_Predicate nq)
        \<and> Namespace de = (if optNamespace \<noteq> - 1 then optNamespace else Namespace nq))"
proof (intro conjI allI impI)
  fix T l assume "Subject nq = ''_:'' @ T @ ''.'' @ l \<and> CHR ''.'' \<notin> set T"
  then show "processNQuad_Predicate nq = T @ ''.'' @ Predicate nq"
    using SplitN2_hd_dot [of T l]
    by (simp add: processNQuad_Predicate_def processNQuad_typ_def strings_HasPrefix_def)
next
  fix r assume "Subject nq = ''_:'' @ r \<and> CHR ''.'' \<notin> set r"
  then show "processNQuad_Predicate nq = r @ ''.'' @ Predicate nq"
    using SplitN2_hd_nodot [of r]
    by (simp add: processNQuad_Predicate_def processNQuad_typ_def strings_HasPrefix_def)
next
  assume "\<not> strings_HasPrefix (Subject nq) ''_:''"
  then show "processNQuad_Predicate nq = ''.'' @ Predicate nq"
    by (simp add: processNQuad_Predicate_def processNQuad_typ_def)
next
  fix de xids' assume a: "processNQuad_de optNamespace uid NamespaceAttr nq xids = Some (de, xids')"
  then show "Predicate de = NamespaceAttr (Namespace de) (processNQuad_Predicate nq)"
    by (auto simp add: processNQuad_de_def Let_def split: prod.splits if_splits option.splits)
  from a show "Namespace de = (if optNamespace \<noteq> - 1 then optNamespace else Namespace nq)"
    by (auto simp add: processNQuad_de_def Let_def split: prod.splits if_splits option.splits)
qed


theorem processNQuad_predicate_witness:
  "Subject \<lparr> Subject = ''_:Person.alice'', Predicate = ''knows'', ObjectId = ''_:Person.bob'',
             ObjectValue = None, Namespace = 0 \<rparr> = ''_:'' @ ''Person'' @ ''.'' @ ''alice''
   \<and> CHR ''.'' \<notin> set ''Person''
   \<and> processNQuad_Predicate \<lparr> Subject = ''_:Person.alice'', Predicate = ''knows'',
        ObjectId = ''_:Person.bob'', ObjectValue = None, Namespace = 0 \<rparr> = ''Person.knows''
   \<and> \<not> strings_HasPrefix (Subject \<lparr> Subject = ''0x1'', Predicate = ''name'', ObjectId = ''0x2'',
             ObjectValue = None, Namespace = 0 \<rparr>) ''_:''
   \<and> processNQuad_Predicate \<lparr> Subject = ''0x1'', Predicate = ''name'', ObjectId = ''0x2'',
        ObjectValue = None, Namespace = 0 \<rparr> = ''.name''"
proof -
  let ?a = "\<lparr> Subject = ''_:Person.alice'', Predicate = ''knows'', ObjectId = ''_:Person.bob'',
             ObjectValue = None, Namespace = 0 \<rparr>"
  let ?b = "\<lparr> Subject = ''0x1'', Predicate = ''name'', ObjectId = ''0x2'',
             ObjectValue = None, Namespace = 0 \<rparr>"
  have h1: "Subject ?a = ''_:'' @ ''Person'' @ ''.'' @ ''alice'' \<and> CHR ''.'' \<notin> set ''Person''"
    by simp
  have h2: "\<not> strings_HasPrefix (Subject ?b) ''_:''"
    by (simp add: strings_HasPrefix_def)
  have "processNQuad_Predicate ?a = ''Person'' @ ''.'' @ Predicate ?a"
    by (rule processNQuad_predicate [of ?a, THEN conjunct1, rule_format,
          of "''Person''" "''alice''", OF h1])
  moreover have "processNQuad_Predicate ?b = ''.'' @ Predicate ?b"
    by (rule processNQuad_predicate [of ?b, THEN conjunct2, THEN conjunct2, THEN conjunct1,
          rule_format, OF h2])
  ultimately show ?thesis
    using h1 h2 by simp
qed

theorem unprefixed_predicate_counterexample:
  "\<not> strings_HasPrefix ''0x1'' ''_:''
   \<and> processNQuad_Predicate \<lparr> Subject = ''0x1'', Predicate = ''name'', ObjectId = ''0x2'',
        ObjectValue = None, Namespace = 0 \<rparr> = ''.name''
   \<and> processNQuad_Predicate \<lparr> Subject = ''0x1'', Predicate = ''name'', ObjectId = ''0x2'',
        ObjectValue = None, Namespace = 0 \<rparr> \<noteq> ''name''"
  by (simp add: processNQuad_Predicate_def processNQuad_typ_def strings_HasPrefix_def)

text \<open>
  Claim C8. For an object-value edge, \<open>createPostings\<close> sets the uid of the posting to the
  fingerprint of the value when the schema of the predicate is a list and to \<open>math.MaxUint64\<close>
  otherwise, whatever posting \<open>posting.NewPosting\<close> made; with the posting the spec describes it
  is a \<open>VALUE\<close> posting carrying the value, and for an object-UID edge it is the untouched \<open>REF\<close>
  posting with the object UID and no value.
\<close>

theorem createPostings_uid:
  "(\<forall>p sch v. newPosting nq = Some p \<and> getSchema (Predicate nq) = Some sch
        \<and> ObjectValue nq = Some v \<longrightarrow>
      createPostings newPosting getSchema Fingerprint64 nq
        = Some (p \<lparr> Uid := (if List sch then Fingerprint64 v else - 1) \<rparr>))
   \<and> (\<forall>sch v. getSchema (Predicate nq) = Some sch \<and> ObjectValue nq = Some v \<longrightarrow>
      createPostings NewPosting getSchema Fingerprint64 nq
        = Some \<lparr> Uid = (if List sch then Fingerprint64 v else - 1), Value = v,
                 PostingType = Posting_VALUE \<rparr>)
   \<and> (\<forall>sch oid. getSchema (Predicate nq) = Some sch \<and> ObjectValue nq = None
        \<and> ObjectId nq = ToHexString oid \<longrightarrow>
      createPostings NewPosting getSchema Fingerprint64 nq
        = Some \<lparr> Uid = oid, Value = [], PostingType = Posting_REF \<rparr>)"
  by (auto simp add: createPostings_def NewPosting_def FromHex_ToHexString)

theorem createPostings_uid_witness:
  "createPostings NewPosting [''0.Article.tags'' \<mapsto> \<lparr> Count = False, List = True, Tokenizer = [] \<rparr>]
      Uint64
      \<lparr> Subject = ''0x1'', Predicate = ''0.Article.tags'', ObjectId = [],
        ObjectValue = Some [0, 0, 0, 0, 0, 0, 0, 42], Namespace = 0 \<rparr>
     = Some \<lparr> Uid = 42, Value = [0, 0, 0, 0, 0, 0, 0, 42], PostingType = Posting_VALUE \<rparr>
   \<and> createPostings NewPosting [''0.Article.title'' \<mapsto> \<lparr> Count = False, List = False, Tokenizer = [] \<rparr>]
      Uint64
      \<lparr> Subject = ''0x1'', Predicate = ''0.Article.title'', ObjectId = [],
        ObjectValue = Some [0, 0, 0, 0, 0, 0, 0, 42], Namespace = 0 \<rparr>
     = Some \<lparr> Uid = - 1, Value = [0, 0, 0, 0, 0, 0, 0, 42], PostingType = Posting_VALUE \<rparr>
   \<and> createPostings NewPosting [''0.Person.knows'' \<mapsto> \<lparr> Count = False, List = True, Tokenizer = [] \<rparr>]
      Uint64
      \<lparr> Subject = ''0x1'', Predicate = ''0.Person.knows'', ObjectId = ToHexString 2,
        ObjectValue = None, Namespace = 0 \<rparr>
     = Some \<lparr> Uid = 2, Value = [], PostingType = Posting_REF \<rparr>"
proof -
  let ?v = "[0, 0, 0, 0, 0, 0, 0, 42] :: bytes"
  let ?tags = "\<lparr> Subject = ''0x1'', Predicate = ''0.Article.tags'', ObjectId = [],
        ObjectValue = Some ?v, Namespace = 0 \<rparr>"
  let ?title = "\<lparr> Subject = ''0x1'', Predicate = ''0.Article.title'', ObjectId = [],
        ObjectValue = Some ?v, Namespace = 0 \<rparr>"
  let ?knows = "\<lparr> Subject = ''0x1'', Predicate = ''0.Person.knows'', ObjectId = ToHexString 2,
        ObjectValue = None, Namespace = 0 \<rparr>"
  let ?l = "\<lparr> Count = False, List = True, Tokenizer = [] \<rparr>"
  let ?s = "\<lparr> Count = False, List = False, Tokenizer = [] \<rparr>"
  have fp: "Uint64 ?v = 42"
    by (simp add: Uint64_def)
  from createPostings_uid [of NewPosting ?tags "[''0.Article.tags'' \<mapsto> ?l]" Uint64]
  have 1: "createPostings NewPosting [''0.Article.tags'' \<mapsto> ?l] Uint64 ?tags
     = Some \<lparr> Uid = 42, Value = ?v, PostingType = Posting_VALUE \<rparr>"
    by (simp add: fp)
  from createPostings_uid [of NewPosting ?title "[''0.Article.title'' \<mapsto> ?s]" Uint64]
  have 2: "createPostings NewPosting [''0.Article.title'' \<mapsto> ?s] Uint64 ?title
     = Some \<lparr> Uid = - 1, Value = ?v, PostingType = Posting_VALUE \<rparr>"
    by simp
  from createPostings_uid [of NewPosting ?knows "[''0.Person.knows'' \<mapsto> ?l]" Uint64]
  have 3: "createPostings NewPosting [''0.Person.knows'' \<mapsto> ?l] Uint64 ?knows
     = Some \<lparr> Uid = 2, Value = [], PostingType = Posting_REF \<rparr>"
    by simp
  from 1 2 3 show ?thesis
    by blast
qed

text \<open>
  Claim C9. With a current schema, and an absent old schema counting as \<open>count = false\<close>: an
  unchanged count directive is a no-op (nothing dropped, nothing rebuilt); count turned off
  deletes the count index (its prefix and the split twin are dropped, nothing rebuilt); count
  turned on drops the same prefixes and runs the rebuild.
\<close>

theorem count_index_decision:
  assumes "CurrentSchema rb = Some cur"
    and "old_count = (case OldSchema rb of None \<Rightarrow> False | Some old \<Rightarrow> Count old)"
    and "CountPrefix (Attr rb) \<noteq> []"
  shows "(Count cur = old_count \<longrightarrow>
            needsCountIndexRebuild rb = Some indexNoop
          \<and> prefixesToDropCountIndex CountPrefix ByteSplit rb = Some []
          \<and> rebuildCountIndex run rb = Some NotRebuilt)
     \<and> (\<not> Count cur \<and> old_count \<longrightarrow>
            needsCountIndexRebuild rb = Some indexDelete
          \<and> prefixesToDropCountIndex CountPrefix ByteSplit rb
              = Some [CountPrefix (Attr rb), (CountPrefix (Attr rb))[0 := ByteSplit]]
          \<and> rebuildCountIndex run rb = Some NotRebuilt)
     \<and> (Count cur \<and> \<not> old_count \<longrightarrow>
            needsCountIndexRebuild rb = Some indexRebuild
          \<and> prefixesToDropCountIndex CountPrefix ByteSplit rb
              = Some [CountPrefix (Attr rb), (CountPrefix (Attr rb))[0 := ByteSplit]]
          \<and> rebuildCountIndex run rb = Some (Rebuilt (run rb)))"
  using assms
  by (auto simp add: needsCountIndexRebuild_def prefixesToDropCountIndex_def
      rebuildCountIndex_def emptySchemaUpdate_def Let_def split: option.splits)

theorem count_index_decision_witness:
  "needsCountIndexRebuild \<lparr> Attr = ''friend'', StartTs = 5, OldSchema = None,
       CurrentSchema = Some \<lparr> Count = True, List = True, Tokenizer = [] \<rparr> \<rparr> = Some indexRebuild
   \<and> prefixesToDropCountIndex (\<lambda>attr. 0 # map of_char attr) 4
       \<lparr> Attr = ''ab'', StartTs = 5, OldSchema = None,
         CurrentSchema = Some \<lparr> Count = True, List = True, Tokenizer = [] \<rparr> \<rparr>
       = Some [[0, 97, 98], [4, 97, 98]]
   \<and> rebuildCountIndex StartTs \<lparr> Attr = ''friend'', StartTs = 5, OldSchema = None,
       CurrentSchema = Some \<lparr> Count = True, List = True, Tokenizer = [] \<rparr> \<rparr> = Some (Rebuilt 5)
   \<and> needsCountIndexRebuild \<lparr> Attr = ''friend'', StartTs = 5,
       OldSchema = Some \<lparr> Count = True, List = True, Tokenizer = [] \<rparr>,
       CurrentSchema = Some \<lparr> Count = False, List = True, Tokenizer = [] \<rparr> \<rparr> = Some indexDelete
   \<and> rebuildCountIndex StartTs \<lparr> Attr = ''friend'', StartTs = 5,
       OldSchema = Some \<lparr> Count = True, List = True, Tokenizer = [] \<rparr>,
       CurrentSchema = Some \<lparr> Count = False, List = True, Tokenizer = [] \<rparr> \<rparr> = Some NotRebuilt
   \<and> needsCountIndexRebuild \<lparr> Attr = ''friend'', StartTs = 5, OldSchema = None,
       CurrentSchema = Some \<lparr> Count = False, List = True, Tokenizer = [] \<rparr> \<rparr> = Some indexNoop"
proof -
  let ?on = "\<lparr> Count = True, List = True, Tokenizer = [] \<rparr>"
  let ?off = "\<lparr> Count = False, List = True, Tokenizer = [] \<rparr>"
  let ?cp = "\<lambda>attr :: string. (0 :: byte) # map of_char attr"
  let ?r1 = "\<lparr> Attr = ''friend'', StartTs = 5, OldSchema = None, CurrentSchema = Some ?on \<rparr>"
  let ?r4 = "\<lparr> Attr = ''ab'', StartTs = 5, OldSchema = None, CurrentSchema = Some ?on \<rparr>"
  let ?r2 = "\<lparr> Attr = ''friend'', StartTs = 5, OldSchema = Some ?on, CurrentSchema = Some ?off \<rparr>"
  let ?r3 = "\<lparr> Attr = ''friend'', StartTs = 5, OldSchema = None, CurrentSchema = Some ?off \<rparr>"
  have 1: "needsCountIndexRebuild ?r1 = Some indexRebuild
      \<and> rebuildCountIndex StartTs ?r1 = Some (Rebuilt 5)"
    using count_index_decision [of ?r1 ?on False ?cp 4 StartTs] by simp
  have 4: "prefixesToDropCountIndex ?cp 4 ?r4 = Some [[0, 97, 98], [4, 97, 98]]"
    using count_index_decision [of ?r4 ?on False ?cp 4 StartTs] by simp
  have 2: "needsCountIndexRebuild ?r2 = Some indexDelete
      \<and> rebuildCountIndex StartTs ?r2 = Some NotRebuilt"
    using count_index_decision [of ?r2 ?off True ?cp 4 StartTs] by simp
  have 3: "needsCountIndexRebuild ?r3 = Some indexNoop"
    using count_index_decision [of ?r3 ?off False ?cp 4 StartTs] by simp
  from 1 2 3 4 show ?thesis
    by blast
qed

end
